theory Spec2Isabelle
  imports Main "HOL-Library.Word"
begin

unbundle bit_operations_syntax

section \<open>Machine types and errors\<close>

text \<open>
  \<open>reg_t\<close> is \<open>uint64_t\<close> and \<open>size_t\<close> is the 64-bit unsigned type of the
  LP64 targets the simulator builds for; both wrap around. A byte buffer
  (\<open>uint8_t*\<close>) is a list of bytes. C++ exceptions are values of \<open>error\<close>.
\<close>

type_synonym reg_t = "64 word"
type_synonym size_t = "64 word"
type_synonym bytes = "8 word list"

datatype error = runtime_error string | bad_alloc | out_of_range

text \<open>
  Modelled from the spec: the macros \<open>PGSHIFT\<close> and \<open>PGSIZE\<close> are used by
  \<open>devices.cc\<close> but defined in a header that is not part of the sources at hand;
  the spec fixes the page size at 4096 bytes and the page index at \<open>addr >> 12\<close>.
\<close>

definition PGSHIFT :: nat where
  "PGSHIFT = 12"

definition PGSIZE :: reg_t where
  "PGSIZE = push_bit PGSHIFT 1"

text \<open>
  \<open>memcpy(dst + doff, src + soff, n)\<close> on two distinct buffers: the \<open>n\<close>
  bytes of \<open>dst\<close> from \<open>doff\<close> on are replaced by the \<open>n\<close> bytes of \<open>src\<close> from
  \<open>soff\<close> on. The C call is defined only when both ranges lie inside their buffers.
\<close>

definition memcpy :: "bytes \<Rightarrow> nat \<Rightarrow> bytes \<Rightarrow> nat \<Rightarrow> nat \<Rightarrow> bytes" where
  "memcpy dst doff src soff n = take doff dst @ take n (drop soff src) @ drop (doff + n) dst"

section \<open>Sparse memory device (\<open>mem_t\<close>)\<close>

text \<open>
  \<open>sparse_memory_map\<close> is a \<open>std::map<reg_t, char*>\<close> from page number to a page
  obtained from \<open>calloc(PGSIZE, 1)\<close>. Every page pointer is owned by exactly one map
  entry, so the map is modelled as going from the page number to the page's bytes.
\<close>

record mem_t =
  sz :: reg_t
  sparse_memory_map :: "reg_t \<rightharpoonup> bytes"

text \<open>The constructor \<open>mem_t::mem_t(reg_t size)\<close>; the \<open>throw\<close> is the \<open>Inl\<close> branch.\<close>

definition mem_t_ctor :: "reg_t \<Rightarrow> error + mem_t" where
  "mem_t_ctor size0 =
     (if size0 = 0 \<or> size0 mod PGSIZE \<noteq> 0
      then Inl (runtime_error ''memory size must be a positive multiple of 4 KiB'')
      else Inr \<lparr>sz = size0, sparse_memory_map = Map.empty\<rparr>)"

text \<open>
  \<open>calloc(PGSIZE, 1)\<close>: the allocator is the environment. Its state is the number
  \<open>heap\<close> of pages it can still hand out; with none left it returns \<open>nullptr\<close>
  (\<open>None\<close>), otherwise a zero-filled page.
\<close>

definition calloc_page :: "nat \<Rightarrow> bytes option \<times> nat" where
  "calloc_page heap =
     (if heap = 0 then (None, heap) else (Some (replicate (unat PGSIZE) 0), heap - 1))"

text \<open>
  \<open>mem_t::contents(addr)\<close> returns a pointer into a page: the pair of the page
  number and the offset \<open>pgoff\<close> in that page, together with the updated device and
  allocator. A failed allocation throws \<open>std::bad_alloc\<close>.
\<close>

definition mem_t_contents ::
  "mem_t \<Rightarrow> nat \<Rightarrow> reg_t \<Rightarrow> error + ((reg_t \<times> nat) \<times> mem_t \<times> nat)" where
  "mem_t_contents m heap addr =
     (let ppn = drop_bit PGSHIFT addr; pgoff = addr mod PGSIZE in
      case sparse_memory_map m ppn of
        None \<Rightarrow>
          (case calloc_page heap of
             (None, heap') \<Rightarrow> Inl bad_alloc
           | (Some res, heap') \<Rightarrow>
               Inr ((ppn, unat pgoff),
                    m\<lparr>sparse_memory_map := (sparse_memory_map m)(ppn \<mapsto> res)\<rparr>, heap'))
      | Some pg \<Rightarrow> Inr ((ppn, unat pgoff), m, heap))"

text \<open>Reading and writing the page a pointer returned by \<open>contents\<close> points into.\<close>

definition page_of :: "mem_t \<Rightarrow> reg_t \<Rightarrow> bytes" where
  "page_of m ppn = (case sparse_memory_map m ppn of Some pg \<Rightarrow> pg | None \<Rightarrow> [])"

definition set_page :: "mem_t \<Rightarrow> reg_t \<Rightarrow> bytes \<Rightarrow> mem_t" where
  "set_page m ppn pg = m\<lparr>sparse_memory_map := (sparse_memory_map m)(ppn \<mapsto> pg)\<rparr>"

text \<open>
  The \<open>while (len > 0)\<close> loop of \<open>mem_t::load_store\<close>. The caller's buffer is the
  list \<open>buf\<close> and the moving pointer \<open>bytes\<close> is the offset \<open>pos\<close> into it;
  \<open>is_store\<close> is the parameter \<open>store\<close>.
\<close>

function load_store_loop ::
  "mem_t \<Rightarrow> nat \<Rightarrow> reg_t \<Rightarrow> size_t \<Rightarrow> bytes \<Rightarrow> nat \<Rightarrow> bool \<Rightarrow> error + (bytes \<times> mem_t \<times> nat)" where
  "load_store_loop m heap addr len buf pos is_store =
     (if len > 0 then
        (let n = min (PGSIZE - (addr mod PGSIZE)) len in
         case mem_t_contents m heap addr of
           Inl e \<Rightarrow> Inl e
         | Inr ((ppn, pgoff), m', heap') \<Rightarrow>
             (if is_store
              then load_store_loop
                     (set_page m' ppn (memcpy (page_of m' ppn) pgoff buf pos (unat n)))
                     heap' (addr + n) (len - n) buf (pos + unat n) is_store
              else load_store_loop m' heap' (addr + n) (len - n)
                     (memcpy buf pos (page_of m' ppn) pgoff (unat n)) (pos + unat n) is_store))
      else Inr (buf, m, heap))"
  by pat_completeness auto
termination
proof -
  have dec: "unat (len - min (PGSIZE - addr mod PGSIZE) len) < unat len"
    if pos: "0 < len" for addr len :: reg_t
  proof -
    have pgoff: "unat (addr mod PGSIZE) = unat addr mod 4096"
      by (simp add: unat_mod PGSIZE_def PGSHIFT_def)
    then have "addr mod PGSIZE \<le> PGSIZE"
      by (simp add: word_le_nat_alt PGSIZE_def PGSHIFT_def less_imp_le)
    then have room: "unat (PGSIZE - addr mod PGSIZE) = 4096 - unat addr mod 4096"
      using pgoff by (simp add: unat_sub PGSIZE_def PGSHIFT_def)
    have "0 < unat len"
      using pos by (simp add: word_less_nat_alt)
    moreover have "unat (len - min (PGSIZE - addr mod PGSIZE) len)
        = unat len - unat (min (PGSIZE - addr mod PGSIZE) len)"
      by (rule unat_sub) simp
    ultimately show ?thesis
      by (simp add: min_def word_le_nat_alt room)
  qed
  show ?thesis
    by (relation "measure (\<lambda>(m, heap, addr, len, buf, pos, is_store). unat len)")
       (simp_all add: dec)
qed

declare load_store_loop.simps [simp del]

text \<open>
  \<open>mem_t::load_store\<close>: the bounds check on the whole request, then the loop. The result
  is the returned \<open>bool\<close>, the caller's buffer, the device and the allocator.
\<close>

definition mem_t_load_store ::
  "mem_t \<Rightarrow> nat \<Rightarrow> reg_t \<Rightarrow> size_t \<Rightarrow> bytes \<Rightarrow> bool \<Rightarrow> error + (bool \<times> bytes \<times> mem_t \<times> nat)" where
  "mem_t_load_store m heap addr len buf is_store =
     (if addr + len < addr \<or> addr + len > sz m then Inr (False, buf, m, heap)
      else case load_store_loop m heap addr len buf 0 is_store of
             Inl e \<Rightarrow> Inl e
           | Inr (buf', m', heap') \<Rightarrow> Inr (True, buf', m', heap'))"

section \<open>Address-space bus (\<open>bus_t\<close>)\<close>

text \<open>
  An \<open>abstract_device_t*\<close> is an object with the two virtual methods \<open>load\<close> and
  \<open>store\<close>. A method may change the state \<open>'h\<close> the devices live in, may fill the
  caller's buffer, returns a \<open>bool\<close>, and may throw.
\<close>

record 'h abstract_device_t =
  dev_load :: "reg_t \<Rightarrow> size_t \<Rightarrow> bytes \<Rightarrow> 'h \<Rightarrow> error + (bool \<times> bytes \<times> 'h)"
  dev_store :: "reg_t \<Rightarrow> size_t \<Rightarrow> bytes \<Rightarrow> 'h \<Rightarrow> error + (bool \<times> 'h)"

text \<open>
  \<open>devices\<close> is a \<open>std::map<reg_t, abstract_device_t*>\<close>: the list of its entries in
  the order of iteration, that is by increasing key. An iterator is an index into that list,
  \<open>begin()\<close> is 0 and \<open>end()\<close> is the length.
\<close>

record 'h bus_t =
  devices :: "(reg_t \<times> 'h abstract_device_t) list"

definition bus_t_ctor :: "'h bus_t" where
  "bus_t_ctor = \<lparr>devices = []\<rparr>"

text \<open>\<open>m[k] = v\<close> on a \<open>std::map\<close>: replaces the entry of key \<open>k\<close> or inserts one in key order.\<close>

fun map_assign :: "(reg_t \<times> 'v) list \<Rightarrow> reg_t \<Rightarrow> 'v \<Rightarrow> (reg_t \<times> 'v) list" where
  "map_assign [] k v = [(k, v)]"
| "map_assign ((k', v') # es) k v =
     (if k < k' then (k, v) # (k', v') # es
      else if k = k' then (k, v) # es
      else (k', v') # map_assign es k v)"

text \<open>\<open>m.upper_bound(k)\<close>: the iterator to the first entry whose key is greater than \<open>k\<close>.\<close>

fun upper_bound :: "(reg_t \<times> 'v) list \<Rightarrow> reg_t \<Rightarrow> nat" where
  "upper_bound [] k = 0"
| "upper_bound ((k', v') # es) k = (if k < k' then 0 else Suc (upper_bound es k))"

definition bus_t_add_device :: "'h bus_t \<Rightarrow> reg_t \<Rightarrow> 'h abstract_device_t \<Rightarrow> 'h bus_t" where
  "bus_t_add_device bus addr dev = bus\<lparr>devices := map_assign (devices bus) addr dev\<rparr>"

definition bus_t_load ::
  "'h bus_t \<Rightarrow> reg_t \<Rightarrow> size_t \<Rightarrow> bytes \<Rightarrow> 'h \<Rightarrow> error + (bool \<times> bytes \<times> 'h)" where
  "bus_t_load bus addr len buf h =
     (let it = upper_bound (devices bus) addr in
      if devices bus = [] \<or> it = 0 then Inr (False, buf, h)
      else (let it' = it - 1; e = devices bus ! it' in
            dev_load (snd e) (addr - fst e) len buf h))"

definition bus_t_store ::
  "'h bus_t \<Rightarrow> reg_t \<Rightarrow> size_t \<Rightarrow> bytes \<Rightarrow> 'h \<Rightarrow> error + (bool \<times> 'h)" where
  "bus_t_store bus addr len buf h =
     (let it = upper_bound (devices bus) addr in
      if devices bus = [] \<or> it = 0 then Inr (False, h)
      else (let it' = it - 1; e = devices bus ! it' in
            dev_store (snd e) (addr - fst e) len buf h))"

definition bus_t_find_device :: "'h bus_t \<Rightarrow> reg_t \<Rightarrow> reg_t \<times> 'h abstract_device_t option" where
  "bus_t_find_device bus addr =
     (let it = upper_bound (devices bus) addr in
      if devices bus = [] \<or> it = 0 then (0, None)
      else (let it' = it - 1; e = devices bus ! it' in (fst e, Some (snd e))))"

section \<open>Plugin registry and plugin device adapter\<close>

text \<open>
  \<open>mmio_plugin_t\<close> is a table of four function pointers. The handle (\<open>void*\<close>) is an
  \<open>option\<close>, \<open>None\<close> being \<open>NULL\<close>; \<open>'w\<close> is the state the plugin works on.
\<close>

record ('u, 'w) mmio_plugin_t =
  alloc :: "string \<Rightarrow> 'w \<Rightarrow> 'u option \<times> 'w"
  load :: "'u option \<Rightarrow> reg_t \<Rightarrow> size_t \<Rightarrow> bytes \<Rightarrow> 'w \<Rightarrow> bool \<times> bytes \<times> 'w"
  store :: "'u option \<Rightarrow> reg_t \<Rightarrow> size_t \<Rightarrow> bytes \<Rightarrow> 'w \<Rightarrow> bool \<times> 'w"
  dealloc :: "'u option \<Rightarrow> 'w \<Rightarrow> 'w"

text \<open>
  \<open>mmio_plugin_map()\<close> is the one \<open>std::map<std::string, mmio_plugin_t>\<close> of the process;
  it is passed to and returned by the functions that use it.
\<close>

type_synonym ('u, 'w) mmio_plugin_map_t = "string \<rightharpoonup> ('u, 'w) mmio_plugin_t"

text \<open>\<open>m.emplace(k, v)\<close>: inserts only when \<open>k\<close> is absent; \<open>.second\<close> tells whether it did.\<close>

definition emplace :: "('k \<rightharpoonup> 'v) \<Rightarrow> 'k \<Rightarrow> 'v \<Rightarrow> ('k \<rightharpoonup> 'v) \<times> bool" where
  "emplace m k v = (case m k of None \<Rightarrow> (m(k \<mapsto> v), True) | Some v' \<Rightarrow> (m, False))"

definition register_mmio_plugin ::
  "string \<Rightarrow> ('u, 'w) mmio_plugin_t \<Rightarrow> ('u, 'w) mmio_plugin_map_t
     \<Rightarrow> (error + unit) \<times> ('u, 'w) mmio_plugin_map_t" where
  "register_mmio_plugin name_cstr mmio_plugin reg =
     (let name = name_cstr; (reg', inserted) = emplace reg name mmio_plugin in
      if \<not> inserted
      then (Inl (runtime_error (''Plugin '' @ [CHR 0x22] @ name @ [CHR 0x22] @ '' already registered!'')), reg')
      else (Inr (), reg'))"

text \<open>\<open>std::string::c_str()\<close> seen as a C string: it ends at the first NUL.\<close>

definition c_str :: "string \<Rightarrow> string" where
  "c_str s = takeWhile (\<lambda>c. c \<noteq> CHR 0x00) s"

record ('u, 'w) mmio_plugin_device_t =
  plugin :: "('u, 'w) mmio_plugin_t"
  user_data :: "'u option"

text \<open>
  The constructor: \<open>mmio_plugin_map().at(name)\<close> throws \<open>std::out_of_range\<close> for an
  unknown name; the handle is whatever \<open>alloc\<close> returns.
\<close>

definition mmio_plugin_device_t_ctor ::
  "('u, 'w) mmio_plugin_map_t \<Rightarrow> string \<Rightarrow> string \<Rightarrow> 'w
     \<Rightarrow> error + (('u, 'w) mmio_plugin_device_t \<times> 'w)" where
  "mmio_plugin_device_t_ctor reg name args w =
     (case reg name of
        None \<Rightarrow> Inl out_of_range
      | Some p \<Rightarrow>
          (let (ud, w') = alloc p (c_str args) w in
           Inr (\<lparr>plugin = p, user_data = ud\<rparr>, w')))"

definition mmio_plugin_device_t_dtor :: "('u, 'w) mmio_plugin_device_t \<Rightarrow> 'w \<Rightarrow> 'w" where
  "mmio_plugin_device_t_dtor d w = dealloc (plugin d) (user_data d) w"

definition mmio_plugin_device_t_load ::
  "('u, 'w) mmio_plugin_device_t \<Rightarrow> reg_t \<Rightarrow> size_t \<Rightarrow> bytes \<Rightarrow> 'w \<Rightarrow> bool \<times> bytes \<times> 'w" where
  "mmio_plugin_device_t_load d addr len buf w = load (plugin d) (user_data d) addr len buf w"

definition mmio_plugin_device_t_store ::
  "('u, 'w) mmio_plugin_device_t \<Rightarrow> reg_t \<Rightarrow> size_t \<Rightarrow> bytes \<Rightarrow> 'w \<Rightarrow> bool \<times> 'w" where
  "mmio_plugin_device_t_store d addr len buf w = store (plugin d) (user_data d) addr len buf w"

section \<open>File-backed plugin\<close>

text \<open>
  The operating system is the environment of \<open>file_plugin_alloc\<close>. Its state holds the
  two kinds of resource the function acquires: the open file descriptors and the established
  mappings (start address and length). What each call returns is the environment's choice,
  \<open>os_env\<close>: \<open>open\<close> returns a descriptor or a negative value, \<open>lseek\<close> an \<open>off_t\<close>,
  \<open>mmap\<close> the address of the mapping or \<open>MAP_FAILED\<close>, which is \<open>(void*) -1\<close>,
  \<open>close\<close> 0 or -1, and \<open>malloc\<close> a block or \<open>NULL\<close>.
\<close>

type_synonym ptr = "64 word"

definition NULL :: ptr where
  "NULL = 0"

definition MAP_FAILED :: ptr where
  "MAP_FAILED = - 1"

record os_state =
  open_fds :: "int set"
  mappings :: "(ptr \<times> size_t) set"

record os_env =
  open_ret :: "string \<Rightarrow> bool \<Rightarrow> int"
  lseek_ret :: int
  mmap_ret :: "size_t \<Rightarrow> bool \<Rightarrow> int \<Rightarrow> ptr"
  close_ret :: int
  malloc_ok :: bool

text \<open>\<open>open(filename, rdwr ? O_RDWR : O_RDONLY)\<close>: a result that is not negative is a new open descriptor.\<close>

definition sys_open :: "os_env \<Rightarrow> string \<Rightarrow> bool \<Rightarrow> os_state \<Rightarrow> int \<times> os_state" where
  "sys_open env filename rdwr os =
     (let r = open_ret env filename rdwr in
      (r, if r < 0 then os else os\<lparr>open_fds := insert r (open_fds os)\<rparr>))"

text \<open>
  \<open>close(fd)\<close>: the descriptor is released whatever the call returns, as on Linux, where a
  failing \<open>close\<close> has released the descriptor too.
\<close>

definition sys_close :: "os_env \<Rightarrow> int \<Rightarrow> os_state \<Rightarrow> int \<times> os_state" where
  "sys_close env fd os = (close_ret env, os\<lparr>open_fds := open_fds os - {fd}\<rparr>)"

text \<open>\<open>mmap(NULL, len, prot, MAP_SHARED, fd, 0)\<close>: a result other than \<open>MAP_FAILED\<close> is a new mapping.\<close>

definition sys_mmap :: "os_env \<Rightarrow> size_t \<Rightarrow> bool \<Rightarrow> int \<Rightarrow> os_state \<Rightarrow> ptr \<times> os_state" where
  "sys_mmap env len rdwr fd os =
     (let a = mmap_ret env len rdwr fd in
      (a, if a = MAP_FAILED then os else os\<lparr>mappings := insert (a, len) (mappings os)\<rparr>))"

definition sys_munmap :: "ptr \<Rightarrow> size_t \<Rightarrow> os_state \<Rightarrow> os_state" where
  "sys_munmap a len os = os\<lparr>mappings := mappings os - {(a, len)}\<rparr>"

record file_plugin_data =
  fpd_fd :: int
  fpd_addr :: ptr
  fpd_length :: size_t
  fpd_writable :: bool

text \<open>\<open>strchr(s, c)\<close>: the position of the first \<open>c\<close> in \<open>s\<close>, or \<open>NULL\<close>.\<close>

fun strchr :: "string \<Rightarrow> char \<Rightarrow> nat option" where
  "strchr [] c = None"
| "strchr (x # xs) c = (if x = c then Some 0 else map_option Suc (strchr xs c))"

text \<open>
  The loop over the flag characters before the colon: \<open>None\<close> is the \<open>return NULL\<close>
  inside the loop, otherwise the value of \<open>writable\<close> after the loop.
\<close>

fun file_plugin_flags :: "string \<Rightarrow> bool \<Rightarrow> bool option" where
  "file_plugin_flags [] writable = Some writable"
| "file_plugin_flags (flag # flags) writable =
     (if flag = CHR ''w'' then file_plugin_flags flags True else None)"

text \<open>
  \<open>file_plugin_alloc(args)\<close>. The \<open>off_t\<close> length is an \<open>int\<close>; passed to \<open>mmap\<close> and
  stored in the handle it is converted to \<open>size_t\<close>. The result is the handle, \<open>None\<close> for
  \<open>NULL\<close>, and the state of the operating system afterwards.
\<close>

definition file_plugin_alloc ::
  "os_env \<Rightarrow> string \<Rightarrow> os_state \<Rightarrow> file_plugin_data option \<times> os_state" where
  "file_plugin_alloc env args os =
     (case (case strchr args CHR '':'' of
              None \<Rightarrow> Some (args, False)
            | Some colon \<Rightarrow>
                map_option (\<lambda>writable. (drop (colon + 1) args, writable))
                  (file_plugin_flags (take colon args) False)) of
        None \<Rightarrow> (None, os)
      | Some (filename, writable) \<Rightarrow>
          (let (fd, os1) = sys_open env filename writable os in
           if fd < 0 then (None, os1)
           else (let len = lseek_ret env in
             if len = 0 then (let (c, os2) = sys_close env fd os1 in (None, os2))
             else (let (a, os2) = sys_mmap env (word_of_int len) writable fd os1 in
               if a = NULL then (let (c, os3) = sys_close env fd os2 in (None, os3))
               else (let (c, os3) = sys_close env fd os2 in
                 if c \<noteq> 0 then (None, os3)
                 else if \<not> malloc_ok env then (None, sys_munmap a (word_of_int len) os3)
                 else (Some \<lparr>fpd_fd = fd, fpd_addr = a, fpd_length = word_of_int len,
                              fpd_writable = writable\<rparr>, os3))))))"

definition file_plugin_dealloc :: "file_plugin_data option \<Rightarrow> os_state \<Rightarrow> os_state" where
  "file_plugin_dealloc data os =
     (case data of
        None \<Rightarrow> os
      | Some data2 \<Rightarrow> sys_munmap (fpd_addr data2) (fpd_length data2) os)"

section \<open>Notions used to state the properties\<close>

text \<open>
  The byte of the device at address \<open>a\<close>: what \<open>contents(a)\<close> points at, a page that
  is not allocated yet being one that \<open>calloc\<close> will hand out zero-filled.
\<close>

definition peek :: "mem_t \<Rightarrow> reg_t \<Rightarrow> 8 word" where
  "peek m a = (case sparse_memory_map m (drop_bit PGSHIFT a) of
                 None \<Rightarrow> 0 | Some pg \<Rightarrow> pg ! unat (a mod PGSIZE))"

text \<open>Every page of the device is a block of \<open>PGSIZE\<close> bytes, as \<open>calloc(PGSIZE, 1)\<close> returns it.\<close>

definition mem_inv :: "mem_t \<Rightarrow> bool" where
  "mem_inv m = (\<forall>pg \<in> ran (sparse_memory_map m). length pg = unat PGSIZE)"

text \<open>
  \<open>loads_only m m'\<close>: the device \<open>m'\<close> is \<open>m\<close> after any number of calls of
  \<open>load_store\<close> with \<open>store = false\<close>, each on a buffer of \<open>len\<close> bytes.
\<close>

inductive loads_only :: "mem_t \<Rightarrow> mem_t \<Rightarrow> bool" where
  fresh: "loads_only m m"
| load: "loads_only m m1 \<Longrightarrow> length buf = unat len \<Longrightarrow>
         mem_t_load_store m1 heap addr len buf False = Inr (ok, buf', m2, heap') \<Longrightarrow>
         loads_only m m2"

text \<open>The bus after \<open>add_device(base, dev)\<close> for each pair of \<open>binds\<close>, in order.\<close>

definition bus_with :: "(reg_t \<times> 'h abstract_device_t) list \<Rightarrow> 'h bus_t" where
  "bus_with binds = foldl (\<lambda>bus (base, dev). bus_t_add_device bus base dev) bus_t_ctor binds"

section \<open>Arithmetic of addresses, pages and chunks\<close>

lemma unat_PGSIZE: "unat PGSIZE = 4096"
  by (simp add: PGSIZE_def PGSHIFT_def)

lemma bounds_check_iff:
  fixes addr len s :: reg_t
  shows "(addr + len < addr \<or> addr + len > s) \<longleftrightarrow>
         (2 ^ 64 \<le> unat addr + unat len \<or> unat s < unat addr + unat len)"
proof -
  have l: "unat len < 2 ^ 64" and a: "unat addr < 2 ^ 64" and s: "unat s < 2 ^ 64"
    using unsigned_less [of len, where ?'a = nat] unsigned_less [of addr, where ?'a = nat]
      unsigned_less [of s, where ?'a = nat] by simp_all
  show ?thesis
    using l a s by (simp add: word_less_nat_alt unat_plus_if') arith
qed

lemma chunk_q:
  fixes q r Q R :: nat
  assumes "r < 4096" "R < 4096" "4096 * Q + R \<le> 4096 * q + r" "4096 * q + r < 4096 * Q + 4096"
  shows "q = Q"
proof (rule ccontr)
  assume "q \<noteq> Q"
  then consider "q + 1 \<le> Q" | "Q + 1 \<le> q" by linarith
  then show False
  proof cases
    case 1
    then have "4096 * (q + 1) \<le> 4096 * Q" by (rule mult_le_mono2)
    with assms show False by simp
  next
    case 2
    then have "4096 * (Q + 1) \<le> 4096 * q" by (rule mult_le_mono2)
    with assms show False by simp
  qed
qed


lemma chunk_nat_iff:
  fixes A a L :: nat
  shows "(A \<le> a \<and> a < A + min (4096 - A mod 4096) L) \<longleftrightarrow>
         (a div 4096 = A div 4096 \<and> A mod 4096 \<le> a mod 4096
          \<and> a mod 4096 < A mod 4096 + min (4096 - A mod 4096) L)"
proof -
  define q r Q R where "q = a div 4096" and "r = a mod 4096" and "Q = A div 4096" and "R = A mod 4096"
  have a: "a = 4096 * q + r" and A: "A = 4096 * Q + R" and r: "r < 4096" and R: "R < 4096"
    by (simp_all add: q_def r_def Q_def R_def)
  have "(4096 * Q + R \<le> 4096 * q + r \<and> 4096 * q + r < 4096 * Q + R + min (4096 - R) L) \<longleftrightarrow>
        (q = Q \<and> R \<le> r \<and> r < R + min (4096 - R) L)"
  proof
    assume h: "4096 * Q + R \<le> 4096 * q + r \<and> 4096 * q + r < 4096 * Q + R + min (4096 - R) L"
    have "R + min (4096 - R) L \<le> 4096" using R by linarith
    with h have "4096 * q + r < 4096 * Q + 4096" by linarith
    with h r R have "q = Q" using chunk_q [of r R Q q] by simp
    with h show "q = Q \<and> R \<le> r \<and> r < R + min (4096 - R) L" by simp
  next
    assume "q = Q \<and> R \<le> r \<and> r < R + min (4096 - R) L"
    then show "4096 * Q + R \<le> 4096 * q + r \<and> 4096 * q + r < 4096 * Q + R + min (4096 - R) L"
      by simp
  qed
  then show ?thesis
    unfolding a A q_def [symmetric] r_def [symmetric] Q_def [symmetric] R_def [symmetric] 
    using a A q_def r_def Q_def R_def by metis
qed

lemma chunk_nat_off:
  fixes A a :: nat
  assumes "a div 4096 = A div 4096"
  shows "a mod 4096 - A mod 4096 = a - A"
proof -
  define Q where "Q = A div 4096"
  have "a = 4096 * Q + a mod 4096"
    using assms div_mult_mod_eq [of a 4096] by (simp add: Q_def)
  moreover have "A = 4096 * Q + A mod 4096"
    by (simp add: Q_def)
  ultimately show ?thesis
    by linarith
qed

lemma unat_pgoff: "unat ((addr :: reg_t) mod PGSIZE) = unat addr mod 4096"
  by (simp add: unat_mod unat_PGSIZE)

lemma unat_room: "unat (PGSIZE - (addr :: reg_t) mod PGSIZE) = 4096 - unat addr mod 4096"
proof -
  have "addr mod PGSIZE \<le> PGSIZE"
    by (simp add: word_le_nat_alt unat_pgoff unat_PGSIZE less_imp_le)
  then show ?thesis
    by (simp add: unat_sub unat_pgoff unat_PGSIZE)
qed

lemma unat_chunk:
  "unat (min (PGSIZE - (addr :: reg_t) mod PGSIZE) len) = min (4096 - unat addr mod 4096) (unat len)"
  by (simp add: min_def word_le_nat_alt unat_room)

lemma unat_ppn: "unat (drop_bit PGSHIFT (addr :: reg_t)) = unat addr div 4096"
  by (simp add: PGSHIFT_def drop_bit_eq_div unat_div)

lemma ppn_eq_iff:
  "drop_bit PGSHIFT (a :: reg_t) = drop_bit PGSHIFT (b :: reg_t) \<longleftrightarrow> unat a div 4096 = unat b div 4096"
  by (metis unat_ppn word_unat_eq_iff)

lemma unat_len_pos: "0 < (len :: reg_t) \<Longrightarrow> 0 < unat len"
  by (simp add: word_less_nat_alt)

lemma unat_len_rest:
  "unat ((len :: reg_t) - min (PGSIZE - (addr :: reg_t) mod PGSIZE) len)
     = unat len - min (4096 - unat addr mod 4096) (unat len)"
proof -
  have "unat (len - min (PGSIZE - addr mod PGSIZE) len)
        = unat len - unat (min (PGSIZE - addr mod PGSIZE) len)"
    by (rule unat_sub) simp
  then show ?thesis
    by (simp only: unat_chunk)
qed

lemma unat_addr_next:
  assumes "unat (addr :: reg_t) + unat (len :: reg_t) < 2 ^ 64"
  shows "unat (addr + min (PGSIZE - addr mod PGSIZE) len)
     = unat addr + min (4096 - unat addr mod 4096) (unat len)"
proof -
  have "unat addr + unat (min (PGSIZE - addr mod PGSIZE) len) < 2 ^ 64"
    using assms by (simp add: unat_chunk)
  then have "unat (addr + min (PGSIZE - addr mod PGSIZE) len)
      = unat addr + unat (min (PGSIZE - addr mod PGSIZE) len)"
    by (simp add: unat_plus_if')
  then show ?thesis
    by (simp only: unat_chunk)
qed

lemma memcpy_length:
  "doff + n \<le> length dst \<Longrightarrow> soff + n \<le> length src \<Longrightarrow>
   length (memcpy dst doff src soff n) = length dst"
  by (simp add: memcpy_def)

lemma memcpy_nth:
  assumes "doff + n \<le> length dst" "soff + n \<le> length src" "j < length dst"
  shows "memcpy dst doff src soff n ! j =
         (if doff \<le> j \<and> j < doff + n then src ! (soff + (j - doff)) else dst ! j)"
proof -
  let ?mid = "take n (drop soff src)"
  have mid: "length ?mid = n" and pre: "length (take doff dst) = doff"
    using assms by simp_all
  have m: "memcpy dst doff src soff n = take doff dst @ (?mid @ drop (doff + n) dst)"
    by (simp add: memcpy_def)
  consider "j < doff" | "doff \<le> j" "j < doff + n" | "doff + n \<le> j"
    by linarith
  then show ?thesis
  proof cases
    case 1
    then show ?thesis
      unfolding m using pre by (simp add: nth_append)
  next
    case 2
    then have "(take doff dst @ (?mid @ drop (doff + n) dst)) ! j = (?mid @ drop (doff + n) dst) ! (j - doff)"
      using pre by (simp add: nth_append)
    also have "\<dots> = ?mid ! (j - doff)"
    proof -
      have "j - doff < length ?mid" using 2 mid by linarith
      then show ?thesis by (simp only: nth_append if_True)
    qed
    also have "\<dots> = src ! (soff + (j - doff))"
    proof -
      have "j - doff < n" using 2 by linarith
      moreover have "soff \<le> length src" using assms by linarith
      ultimately show ?thesis by simp
    qed
    finally show ?thesis
      unfolding m using 2 by simp
  next
    case 3
    then have "(take doff dst @ (?mid @ drop (doff + n) dst)) ! j = (?mid @ drop (doff + n) dst) ! (j - doff)"
      using pre by (simp add: nth_append)
    also have "\<dots> = drop (doff + n) dst ! (j - doff - n)"
    proof -
      have "\<not> j - doff < length ?mid" using 3 mid by linarith
      then show ?thesis by (simp only: nth_append if_False mid)
    qed
    also have "\<dots> = dst ! j"
    proof -
      have "doff + n + (j - doff - n) = j" using 3 by linarith
      moreover have "doff + n \<le> length dst" using assms by linarith
      ultimately show ?thesis by simp
    qed
    finally show ?thesis
      unfolding m using 3 by simp
  qed
qed

section \<open>One call of \<open>contents\<close>, one chunk of the loop\<close>

lemma contents_Some:
  assumes "sparse_memory_map m (drop_bit PGSHIFT addr) = Some pg"
  shows "mem_t_contents m heap addr = Inr ((drop_bit PGSHIFT addr, unat addr mod 4096), m, heap)"
  using assms by (simp add: mem_t_contents_def unat_pgoff)

lemma contents_None:
  assumes "sparse_memory_map m (drop_bit PGSHIFT addr) = None"
  shows "mem_t_contents m heap addr =
     (if heap = 0 then Inl bad_alloc
      else Inr ((drop_bit PGSHIFT addr, unat addr mod 4096),
                set_page m (drop_bit PGSHIFT addr) (replicate 4096 0), heap - 1))"
  using assms by (simp add: mem_t_contents_def Let_def unat_pgoff calloc_page_def set_page_def unat_PGSIZE)

lemma mem_inv_set_page:
  "mem_inv m \<Longrightarrow> length pg = 4096 \<Longrightarrow> mem_inv (set_page m ppn pg)"
  unfolding mem_inv_def set_page_def unat_PGSIZE
  by (auto simp: ran_def)

lemma peek_set_page:
  "peek (set_page m ppn pg) a =
     (if drop_bit PGSHIFT a = ppn then pg ! (unat a mod 4096) else peek m a)"
  by (simp add: peek_def set_page_def unat_pgoff)

lemma peek_zero_page:
  assumes "sparse_memory_map m ppn = None"
  shows "peek (set_page m ppn (replicate 4096 0)) a = peek m a"
  using assms by (simp add: peek_set_page) (simp add: peek_def)

lemma page_of_set_page [simp]: "page_of (set_page m ppn pg) ppn = pg"
  by (simp add: page_of_def set_page_def)

lemma map_set_page: "sparse_memory_map (set_page m ppn pg) = (sparse_memory_map m)(ppn \<mapsto> pg)"
  by (simp add: set_page_def)

lemma sz_set_page: "sz (set_page m ppn pg) = sz m"
  by (simp add: set_page_def)

text \<open>What a successful \<open>contents\<close> call establishes.\<close>

lemma contents_props:
  assumes c: "mem_t_contents m heap addr = Inr ((ppn, pgoff), m1, heap1)" and inv: "mem_inv m"
  shows "ppn = drop_bit PGSHIFT addr" and "pgoff = unat addr mod 4096"
    and "mem_inv m1" and "peek m1 a = peek m a"
    and "sparse_memory_map m1 ppn = Some (page_of m1 ppn)"
    and "length (page_of m1 ppn) = 4096"
    and "dom (sparse_memory_map m) \<subseteq> dom (sparse_memory_map m1)"
    and "heap1 \<le> heap" and "heap \<le> Suc heap1" and "sz m1 = sz m"
    and "sparse_memory_map m \<subseteq>\<^sub>m sparse_memory_map m1"
proof -
  show p: "ppn = drop_bit PGSHIFT addr" and "pgoff = unat addr mod 4096"
    using c by (auto simp: mem_t_contents_def unat_pgoff Let_def split: option.splits prod.splits)
  have "mem_inv m1 \<and> peek m1 a = peek m a \<and> sparse_memory_map m1 ppn = Some (page_of m1 ppn)
      \<and> length (page_of m1 ppn) = 4096 \<and> dom (sparse_memory_map m) \<subseteq> dom (sparse_memory_map m1)
      \<and> heap1 \<le> heap \<and> heap \<le> Suc heap1 \<and> sz m1 = sz m
      \<and> sparse_memory_map m \<subseteq>\<^sub>m sparse_memory_map m1" (is ?all)
  proof (cases "sparse_memory_map m (drop_bit PGSHIFT addr)")
    case None
    with c have h: "heap \<noteq> 0" and m1: "m1 = set_page m ppn (replicate 4096 0)" and h1: "heap1 = heap - 1"
      by (auto simp: contents_None split: if_splits)
    show ?thesis
      using None inv h h1 p
      by (auto simp: m1 mem_inv_set_page peek_zero_page map_set_page sz_set_page map_le_def)
  next
    case (Some pg)
    with c have m1: "m1 = m" and h1: "heap1 = heap"
      by (simp_all add: contents_Some)
    have "length pg = 4096"
      using inv Some by (auto simp: mem_inv_def ran_def unat_PGSIZE)
    then show ?thesis
      using Some p by (simp add: m1 h1 inv page_of_def)
  qed
  then show "mem_inv m1" and "peek m1 a = peek m a"
    and "sparse_memory_map m1 ppn = Some (page_of m1 ppn)"
    and "length (page_of m1 ppn) = 4096"
    and "dom (sparse_memory_map m) \<subseteq> dom (sparse_memory_map m1)"
    and "heap1 \<le> heap" and "heap \<le> Suc heap1" and "sz m1 = sz m"
    and "sparse_memory_map m \<subseteq>\<^sub>m sparse_memory_map m1"
    by simp_all
qed

lemma peek_in_page:
  assumes "sparse_memory_map m (drop_bit PGSHIFT a) = Some pg"
  shows "peek m a = pg ! (unat a mod 4096)"
  using assms by (simp add: peek_def unat_pgoff)

text \<open>One chunk of a store: the bytes of the chunk are the buffer's, the others are as before.\<close>

lemma store_step_peek:
  fixes addr a :: reg_t
  assumes pg: "sparse_memory_map m1 (drop_bit PGSHIFT addr) = Some pg" and len: "length pg = 4096"
    and N: "N = min (4096 - unat addr mod 4096) L" and buf: "pos + N \<le> length buf"
  shows "peek (set_page m1 (drop_bit PGSHIFT addr) (memcpy pg (unat addr mod 4096) buf pos N)) a =
         (if unat addr \<le> unat a \<and> unat a < unat addr + N
          then buf ! (pos + (unat a - unat addr)) else peek m1 a)"
proof (cases "drop_bit PGSHIFT a = drop_bit PGSHIFT addr")
  case False
  then have "unat a div 4096 \<noteq> unat addr div 4096"
    by (simp add: ppn_eq_iff)
  then have out: "\<not> (unat addr \<le> unat a \<and> unat a < unat addr + N)"
    unfolding N using chunk_nat_iff [of "unat addr" "unat a" L] by blast
  have "peek (set_page m1 (drop_bit PGSHIFT addr) (memcpy pg (unat addr mod 4096) buf pos N)) a
      = peek m1 a"
    using False by (simp add: peek_set_page)
  then show ?thesis
    using out by (simp only: if_False)
next
  case True
  then have d: "unat a div 4096 = unat addr div 4096"
    by (simp add: ppn_eq_iff)
  have fit: "unat addr mod 4096 + N \<le> length pg"
    unfolding N len by simp
  have j: "unat a mod 4096 < length pg"
    by (simp add: len)
  have "peek (set_page m1 (drop_bit PGSHIFT addr) (memcpy pg (unat addr mod 4096) buf pos N)) a
      = memcpy pg (unat addr mod 4096) buf pos N ! (unat a mod 4096)"
    using True by (simp add: peek_set_page)
  also have "\<dots> = (if unat addr mod 4096 \<le> unat a mod 4096 \<and> unat a mod 4096 < unat addr mod 4096 + N
                    then buf ! (pos + (unat a mod 4096 - unat addr mod 4096)) else pg ! (unat a mod 4096))"
    by (rule memcpy_nth [OF fit buf j])
  also have "\<dots> = (if unat addr \<le> unat a \<and> unat a < unat addr + N
                    then buf ! (pos + (unat a - unat addr)) else peek m1 a)"
    using chunk_nat_iff [of "unat addr" "unat a" L] chunk_nat_off [OF d] d pg True
    by (simp add: N [symmetric] peek_in_page)
  finally show ?thesis .
qed

text \<open>One chunk of a load: the bytes copied into the buffer are the device's.\<close>

lemma load_step_buf:
  fixes addr a :: reg_t
  assumes pg: "sparse_memory_map m1 (drop_bit PGSHIFT addr) = Some pg" and len: "length pg = 4096"
    and N: "N = min (4096 - unat addr mod 4096) L" and buf: "pos + N \<le> length buf"
    and a: "unat addr \<le> unat a" "unat a < unat addr + N"
  shows "memcpy buf pos pg (unat addr mod 4096) N ! (pos + (unat a - unat addr)) = peek m1 a"
proof -
  define k where "k = unat a - unat addr"
  have k: "k < N" and ak: "unat a = unat addr + k"
    using a by (simp_all add: k_def)
  have in_chunk: "unat a div 4096 = unat addr div 4096"
    using chunk_nat_iff [of "unat addr" "unat a" L] a unfolding N by blast
  have fit: "unat addr mod 4096 + N \<le> length pg"
    unfolding N len by simp
  have j: "pos + k < length buf"
    using k buf by linarith
  have "memcpy buf pos pg (unat addr mod 4096) N ! (pos + k)
      = (if pos \<le> pos + k \<and> pos + k < pos + N
         then pg ! (unat addr mod 4096 + (pos + k - pos)) else buf ! (pos + k))"
    by (rule memcpy_nth [OF buf fit j])
  also have "\<dots> = pg ! (unat addr mod 4096 + k)"
    using k by simp
  also have "unat addr mod 4096 + k = unat a mod 4096"
  proof -
    have "unat a mod 4096 - unat addr mod 4096 = k"
      using chunk_nat_off [OF in_chunk] by (simp add: k_def)
    moreover have "unat addr mod 4096 \<le> unat a mod 4096"
      using chunk_nat_iff [of "unat addr" "unat a" L] a unfolding N by blast
    ultimately show ?thesis by linarith
  qed
  also have "pg ! (unat a mod 4096) = peek m1 a"
    using pg in_chunk by (simp add: peek_in_page ppn_eq_iff [symmetric])
  finally show ?thesis
    by (simp only: k_def)
qed

section \<open>The loop of \<open>load_store\<close>\<close>

lemma loop_zero: "load_store_loop m heap addr 0 buf pos s = Inr (buf, m, heap)"
  by (simp add: load_store_loop.simps)

lemma loop_pos:
  assumes "0 < len"
  shows "load_store_loop m heap addr len buf pos s =
     (case mem_t_contents m heap addr of
        Inl e \<Rightarrow> Inl e
      | Inr ((ppn, pgoff), m1, heap1) \<Rightarrow>
          (if s
           then load_store_loop
                  (set_page m1 ppn (memcpy (page_of m1 ppn) pgoff buf pos
                     (unat (min (PGSIZE - addr mod PGSIZE) len))))
                  heap1 (addr + min (PGSIZE - addr mod PGSIZE) len)
                  (len - min (PGSIZE - addr mod PGSIZE) len) buf
                  (pos + unat (min (PGSIZE - addr mod PGSIZE) len)) s
           else load_store_loop m1 heap1 (addr + min (PGSIZE - addr mod PGSIZE) len)
                  (len - min (PGSIZE - addr mod PGSIZE) len)
                  (memcpy buf pos (page_of m1 ppn) pgoff (unat (min (PGSIZE - addr mod PGSIZE) len)))
                  (pos + unat (min (PGSIZE - addr mod PGSIZE) len)) s))"
  using assms by (subst load_store_loop.simps) (simp add: Let_def)

lemma combine_store:
  fixes A L N u pos :: nat
  assumes N: "0 < N" "N \<le> L"
    and x': "x' = (if A + N \<le> u \<and> u < A + N + (L - N) then f (pos + N + (u - (A + N))) else x2)"
    and x2: "x2 = (if A \<le> u \<and> u < A + N then f (pos + (u - A)) else x)"
  shows "x' = (if A \<le> u \<and> u < A + L then f (pos + (u - A)) else x)"
proof -
  consider "u < A" | "A \<le> u" "u < A + N" | "A + N \<le> u" "u < A + L" | "A + L \<le> u"
    by linarith
  then show ?thesis
  proof cases
    case 1
    then show ?thesis using x' x2 by simp
  next
    case 2
    then show ?thesis using x' x2 N by simp
  next
    case 3
    then have "pos + N + (u - (A + N)) = pos + (u - A)" by linarith
    then show ?thesis using 3 x' N by simp
  next
    case 4
    then show ?thesis using x' x2 N by simp
  qed
qed

text \<open>
  A store that returns has written the buffer over the range, left every other byte as it
  was, and has allocated every page of the range.
\<close>

lemma store_loop_spec:
  fixes addr len :: reg_t
  assumes "mem_inv m" and "unat addr + unat len < 2 ^ 64" and "pos + unat len \<le> length buf"
    and "load_store_loop m heap addr len buf pos True = Inr (buf', m', heap')"
  shows "buf' = buf \<and> mem_inv m' \<and> sz m' = sz m
    \<and> dom (sparse_memory_map m) \<subseteq> dom (sparse_memory_map m')
    \<and> (\<forall>a. peek m' a = (if unat addr \<le> unat a \<and> unat a < unat addr + unat len
                          then buf ! (pos + (unat a - unat addr)) else peek m a))
    \<and> (\<forall>a. unat addr \<le> unat a \<and> unat a < unat addr + unat len
           \<longrightarrow> drop_bit PGSHIFT a \<in> dom (sparse_memory_map m'))"
  using assms
proof (induction "unat len" arbitrary: m heap addr len pos rule: less_induct)
  case less
  show ?case
  proof (cases "0 < len")
    case False
    then have l0: "len = 0"
      using word_neq_0_conv [of len] by blast
    with less.prems(1) less.prems(4) show ?thesis
      by (auto simp: loop_zero)
  next
    case True
    define n where "n = min (PGSIZE - addr mod PGSIZE) len"
    define N where "N = min (4096 - unat addr mod 4096) (unat len)"
    have uN: "unat n = N"
      by (simp add: n_def N_def unat_chunk)
    have Lpos: "0 < unat len"
      using True by (rule unat_len_pos)
    have Npos: "0 < N" and NL: "N \<le> unat len"
      using Lpos by (simp_all add: N_def)
    obtain ppn pgoff m1 heap1 where c: "mem_t_contents m heap addr = Inr ((ppn, pgoff), m1, heap1)"
      using less.prems(4) by (simp add: loop_pos [OF True] split: sum.splits prod.splits)
    note cp = contents_props [OF c less.prems(1)]
    define pg' where "pg' = memcpy (page_of m1 ppn) pgoff buf pos N"
    define m2 where "m2 = set_page m1 ppn pg'"
    have rec: "load_store_loop m2 heap1 (addr + n) (len - n) buf (pos + N) True = Inr (buf', m', heap')"
      using less.prems(4) by (simp add: loop_pos [OF True] c n_def [symmetric] uN m2_def pg'_def)
    have fit: "pgoff + N \<le> length (page_of m1 ppn)"
      by (simp add: cp(2) cp(6) N_def)
    have bufN: "pos + N \<le> length buf"
      using less.prems(3) NL by linarith
    have len': "length pg' = 4096"
      unfolding pg'_def using memcpy_length [OF fit bufN] cp(6) by simp
    have inv2: "mem_inv m2"
      unfolding m2_def using cp(3) len' by (rule mem_inv_set_page)
    have urest: "unat (len - n) = unat len - N"
      by (simp add: n_def N_def unat_len_rest)
    have unext: "unat (addr + n) = unat addr + N"
      by (simp add: n_def N_def unat_addr_next [OF less.prems(2)])
    have dec: "unat (len - n) < unat len"
      using urest Npos Lpos by linarith
    have b2: "unat (addr + n) + unat (len - n) < 2 ^ 64"
      using urest unext NL less.prems(2) by simp
    have b3: "pos + N + unat (len - n) \<le> length buf"
      using urest NL less.prems(3) by simp
    note IH = less.hyps [OF dec inv2 b2 b3 rec]
    have step: "peek m2 a = (if unat addr \<le> unat a \<and> unat a < unat addr + N
                          then buf ! (pos + (unat a - unat addr)) else peek m1 a)" for a
      unfolding m2_def pg'_def cp(1) cp(2)
      by (rule store_step_peek [OF _ cp(6) [unfolded cp(1)] N_def bufN])
         (simp add: cp(5) [unfolded cp(1)])
    have pk: "peek m' a = (if unat addr \<le> unat a \<and> unat a < unat addr + unat len
                          then buf ! (pos + (unat a - unat addr)) else peek m a)" for a
    proof (rule combine_store [OF Npos NL, where ?x2.0 = "peek m2 a"])
      show "peek m' a = (if unat addr + N \<le> unat a \<and> unat a < unat addr + N + (unat len - N)
            then buf ! (pos + N + (unat a - (unat addr + N))) else peek m2 a)"
        using IH by (simp add: urest unext)
      show "peek m2 a = (if unat addr \<le> unat a \<and> unat a < unat addr + N
            then buf ! (pos + (unat a - unat addr)) else peek m a)"
        using step [of a] by (simp add: cp(4))
    qed
    have dom2: "dom (sparse_memory_map m1) \<subseteq> dom (sparse_memory_map m2)"
      by (auto simp: m2_def map_set_page)
    have doms: "dom (sparse_memory_map m) \<subseteq> dom (sparse_memory_map m')"
      using cp(7) dom2 IH by blast
    have present: "drop_bit PGSHIFT a \<in> dom (sparse_memory_map m')"
      if a: "unat addr \<le> unat a" "unat a < unat addr + unat len" for a
    proof (cases "unat a < unat addr + N")
      case True
      then have "unat a div 4096 = unat addr div 4096"
        using chunk_nat_iff [of "unat addr" "unat a" "unat len"] a(1) unfolding N_def by blast
      then have "drop_bit PGSHIFT a = ppn"
        by (simp add: cp(1) ppn_eq_iff)
      moreover have "ppn \<in> dom (sparse_memory_map m2)"
        by (simp add: m2_def map_set_page)
      ultimately show ?thesis
        using IH by blast
    next
      case False
      then have "unat (addr + n) \<le> unat a \<and> unat a < unat (addr + n) + unat (len - n)"
        using a urest unext NL by linarith
      then show ?thesis
        using IH by blast
    qed
    have "sz m' = sz m"
      using IH by (simp add: m2_def sz_set_page cp(10))
    then show ?thesis
      using IH pk doms present by blast
  qed
qed

text \<open>
  A load that returns has copied the bytes of the range into the buffer, left the rest of the
  buffer and every byte of the device as they were, and has only added pages.
\<close>

lemma load_loop_spec:
  fixes addr len :: reg_t
  assumes "mem_inv m" and "unat addr + unat len < 2 ^ 64" and "pos + unat len \<le> length buf"
    and "load_store_loop m heap addr len buf pos False = Inr (buf', m', heap')"
  shows "length buf' = length buf \<and> mem_inv m' \<and> sz m' = sz m
    \<and> sparse_memory_map m \<subseteq>\<^sub>m sparse_memory_map m'
    \<and> (\<forall>a. peek m' a = peek m a)
    \<and> (\<forall>a. unat addr \<le> unat a \<and> unat a < unat addr + unat len
           \<longrightarrow> buf' ! (pos + (unat a - unat addr)) = peek m a)
    \<and> (\<forall>j. j < length buf \<and> (j < pos \<or> pos + unat len \<le> j) \<longrightarrow> buf' ! j = buf ! j)"
  using assms
proof (induction "unat len" arbitrary: m heap addr len pos buf rule: less_induct)
  case less
  show ?case
  proof (cases "0 < len")
    case False
    then have l0: "len = 0"
      using word_neq_0_conv [of len] by blast
    with less.prems(1) less.prems(4) show ?thesis
      by (auto simp: loop_zero)
  next
    case True
    define n where "n = min (PGSIZE - addr mod PGSIZE) len"
    define N where "N = min (4096 - unat addr mod 4096) (unat len)"
    have uN: "unat n = N"
      by (simp add: n_def N_def unat_chunk)
    have Lpos: "0 < unat len"
      using True by (rule unat_len_pos)
    have Npos: "0 < N" and NL: "N \<le> unat len"
      using Lpos by (simp_all add: N_def)
    obtain ppn pgoff m1 heap1 where c: "mem_t_contents m heap addr = Inr ((ppn, pgoff), m1, heap1)"
      using less.prems(4) by (simp add: loop_pos [OF True] split: sum.splits prod.splits)
    note cp = contents_props [OF c less.prems(1)]
    define buf1 where "buf1 = memcpy buf pos (page_of m1 ppn) pgoff N"
    have rec: "load_store_loop m1 heap1 (addr + n) (len - n) buf1 (pos + N) False = Inr (buf', m', heap')"
      using less.prems(4) by (simp add: loop_pos [OF True] c n_def [symmetric] uN buf1_def)
    have fit: "pgoff + N \<le> length (page_of m1 ppn)"
      by (simp add: cp(2) cp(6) N_def)
    have bufN: "pos + N \<le> length buf"
      using less.prems(3) NL by linarith
    have len1: "length buf1 = length buf"
      unfolding buf1_def by (rule memcpy_length [OF bufN fit])
    have urest: "unat (len - n) = unat len - N"
      by (simp add: n_def N_def unat_len_rest)
    have unext: "unat (addr + n) = unat addr + N"
      by (simp add: n_def N_def unat_addr_next [OF less.prems(2)])
    have dec: "unat (len - n) < unat len"
      using urest Npos Lpos by linarith
    have b2: "unat (addr + n) + unat (len - n) < 2 ^ 64"
      using urest unext NL less.prems(2) by simp
    have b3: "pos + N + unat (len - n) \<le> length buf1"
      using urest NL less.prems(3) len1 by simp
    note IH = less.hyps [OF dec cp(3) b2 b3 rec]
    have IHout: "buf' ! j = buf1 ! j"
      if "j < length buf1" "j < pos + N \<or> pos + N + unat (len - n) \<le> j" for j
      using IH that by blast
    have IHin: "buf' ! (pos + N + (unat a - unat (addr + n))) = peek m1 a"
      if "unat (addr + n) \<le> unat a" "unat a < unat (addr + n) + unat (len - n)" for a
      using IH that by blast
    have outside1: "buf1 ! j = buf ! j" if "j < length buf" "j < pos \<or> pos + N \<le> j" for j
    proof -
      have "\<not> (pos \<le> j \<and> j < pos + N)"
        using that(2) by linarith
      then show ?thesis
        unfolding buf1_def memcpy_nth [OF bufN fit that(1)] by (simp only: if_False)
    qed
    have chunk: "buf1 ! (pos + (unat a - unat addr)) = peek m1 a"
      if "unat addr \<le> unat a" "unat a < unat addr + N" for a
      unfolding buf1_def cp(2) cp(1)
      by (rule load_step_buf [OF cp(5) [unfolded cp(1)] cp(6) [unfolded cp(1)] N_def bufN that])
    have bytes: "buf' ! (pos + (unat a - unat addr)) = peek m a"
      if a: "unat addr \<le> unat a" "unat a < unat addr + unat len" for a
    proof (cases "unat a < unat addr + N")
      case True
      have j: "pos + (unat a - unat addr) < length buf1"
        using a True bufN len1 by linarith
      have "pos + (unat a - unat addr) < pos + N"
        using a True by linarith
      then have "buf' ! (pos + (unat a - unat addr)) = buf1 ! (pos + (unat a - unat addr))"
        using IHout [OF j] by blast
      then show ?thesis
        using chunk [OF a(1) True] cp(4) by simp
    next
      case False
      then have r: "unat (addr + n) \<le> unat a" "unat a < unat (addr + n) + unat (len - n)"
        using a urest unext NL by linarith+
      have e: "pos + N + (unat a - unat (addr + n)) = pos + (unat a - unat addr)"
        using False unext by linarith
      have "buf' ! (pos + N + (unat a - unat (addr + n))) = peek m1 a"
        using IHin [OF r] .
      then have "buf' ! (pos + (unat a - unat addr)) = peek m1 a"
        by (simp only: e)
      then show ?thesis
        by (simp only: cp(4))
    qed
    have outside: "buf' ! j = buf ! j" if j: "j < length buf" "j < pos \<or> pos + unat len \<le> j" for j
    proof -
      have "j < pos + N \<or> pos + N + unat (len - n) \<le> j"
        using j urest NL by linarith
      then have "buf' ! j = buf1 ! j"
        using IHout [of j] j(1) len1 by simp
      moreover have "j < pos \<or> pos + N \<le> j"
        using j NL by linarith
      ultimately show ?thesis
        using outside1 [OF j(1)] by simp
    qed
    have le: "sparse_memory_map m \<subseteq>\<^sub>m sparse_memory_map m'"
      using cp(11) IH map_le_trans by blast
    have "length buf' = length buf \<and> mem_inv m' \<and> sz m' = sz m \<and> (\<forall>a. peek m' a = peek m a)"
      using IH len1 cp(10) cp(4) by simp
    then show ?thesis
      using le bytes outside by blast
  qed
qed

lemma load_loop_present:
  fixes addr len :: reg_t
  assumes "unat addr + unat len < 2 ^ 64"
    and "\<forall>a. unat addr \<le> unat a \<and> unat a < unat addr + unat len
           \<longrightarrow> drop_bit PGSHIFT a \<in> dom (sparse_memory_map m)"
  shows "\<exists>buf'. load_store_loop m heap addr len buf pos False = Inr (buf', m, heap)"
  using assms
proof (induction "unat len" arbitrary: addr len pos buf rule: less_induct)
  case less
  show ?case
  proof (cases "0 < len")
    case False
    then have l0: "len = 0"
      using word_neq_0_conv [of len] by blast
    then show ?thesis
      by (simp add: loop_zero)
  next
    case True
    define n where "n = min (PGSIZE - addr mod PGSIZE) len"
    define N where "N = min (4096 - unat addr mod 4096) (unat len)"
    have uN: "unat n = N"
      by (simp add: n_def N_def unat_chunk)
    have Lpos: "0 < unat len"
      using True by (rule unat_len_pos)
    have Npos: "0 < N" and NL: "N \<le> unat len"
      using Lpos by (simp_all add: N_def)
    have "drop_bit PGSHIFT addr \<in> dom (sparse_memory_map m)"
      using less.prems(2) Lpos by simp
    then obtain pg where pg: "sparse_memory_map m (drop_bit PGSHIFT addr) = Some pg"
      by blast
    have urest: "unat (len - n) = unat len - N"
      by (simp add: n_def N_def unat_len_rest)
    have unext: "unat (addr + n) = unat addr + N"
      by (simp add: n_def N_def unat_addr_next [OF less.prems(1)])
    have dec: "unat (len - n) < unat len"
      using urest Npos Lpos by linarith
    have b2: "unat (addr + n) + unat (len - n) < 2 ^ 64"
      using urest unext NL less.prems(1) by simp
    have pres: "\<forall>a. unat (addr + n) \<le> unat a \<and> unat a < unat (addr + n) + unat (len - n)
           \<longrightarrow> drop_bit PGSHIFT a \<in> dom (sparse_memory_map m)"
      using less.prems(2) urest unext NL by simp
    show ?thesis
      using less.hyps [OF dec b2 pres]
      by (simp add: loop_pos [OF True] contents_Some [OF pg] n_def [symmetric])
  qed
qed

lemma loop_succeeds:
  fixes addr len :: reg_t
  assumes "unat len \<le> heap"
  shows "\<exists>r. load_store_loop m heap addr len buf pos s = Inr r"
  using assms
proof (induction "unat len" arbitrary: m heap addr len pos buf rule: less_induct)
  case less
  show ?case
  proof (cases "0 < len")
    case False
    then have l0: "len = 0"
      using word_neq_0_conv [of len] by blast
    then show ?thesis
      by (simp add: loop_zero)
  next
    case True
    define n where "n = min (PGSIZE - addr mod PGSIZE) len"
    define N where "N = min (4096 - unat addr mod 4096) (unat len)"
    have Lpos: "0 < unat len"
      using True by (rule unat_len_pos)
    have Npos: "0 < N" and NL: "N \<le> unat len"
      using Lpos by (simp_all add: N_def)
    have urest: "unat (len - n) = unat len - N"
      by (simp add: n_def N_def unat_len_rest)
    have dec: "unat (len - n) < unat len"
      using urest Npos Lpos by linarith
    have hpos: "heap \<noteq> 0"
      using less.prems Lpos by linarith
    obtain ppn pgoff m1 heap1 where c: "mem_t_contents m heap addr = Inr ((ppn, pgoff), m1, heap1)"
      and h1: "heap \<le> Suc heap1"
      using hpos by (cases "sparse_memory_map m (drop_bit PGSHIFT addr)")
        (auto simp: contents_None contents_Some)
    have enough: "unat (len - n) \<le> heap1"
      using urest Npos h1 less.prems by linarith
    show ?thesis
    proof (cases s)
      case True
      then show ?thesis
        using less.hyps [OF dec enough] \<open>0 < len\<close>
        by (simp add: loop_pos c n_def [symmetric])
    next
      case False
      then show ?thesis
        using less.hyps [OF dec enough] \<open>0 < len\<close>
        by (simp add: loop_pos c n_def [symmetric])
    qed
  qed
qed

lemma unat_add_of_nat:
  fixes addr :: reg_t
  assumes "unat addr + j < 2 ^ 64"
  shows "unat (addr + of_nat j) = unat addr + j"
proof -
  have "j < 2 ^ 64" using assms by linarith
  then have "unat (of_nat j :: reg_t) = j"
    by (simp add: unat_of_nat)
  then show ?thesis
    using assms by (simp add: unat_plus_if')
qed

lemma in_bounds:
  fixes addr len s :: reg_t
  assumes "\<not> (addr + len < addr \<or> addr + len > s)"
  shows "unat addr + unat len < 2 ^ 64" and "unat addr + unat len \<le> unat s"
  using assms bounds_check_iff [of addr len s] by simp_all

lemma load_store_True:
  assumes "mem_t_load_store m heap addr len buf s = Inr (True, buf', m', heap')"
  shows "\<not> (addr + len < addr \<or> addr + len > sz m)"
    and "load_store_loop m heap addr len buf 0 s = Inr (buf', m', heap')"
  using assms by (auto simp: mem_t_load_store_def split: if_splits sum.splits)

lemma load_store_result:
  assumes "mem_t_load_store m heap addr len buf s = Inr (ok, buf', m', heap')"
  shows "(ok \<and> load_store_loop m heap addr len buf 0 s = Inr (buf', m', heap'))
       \<or> (\<not> ok \<and> buf' = buf \<and> m' = m \<and> heap' = heap)"
  using assms by (auto simp: mem_t_load_store_def split: if_splits sum.splits)

text \<open>A successful load returns the bytes of the device at the addresses of the range.\<close>

lemma load_returns_peek:
  assumes inv: "mem_inv m" and buf: "length buf = unat len"
    and ld: "mem_t_load_store m heap addr len buf False = Inr (True, buf', m', heap')"
  shows "buf' = map (\<lambda>i. peek m (addr + of_nat i)) [0..<unat len]"
proof -
  note b = in_bounds [OF load_store_True(1) [OF ld]]
  have sp: "length buf' = length buf"
    and bytes: "\<And>a. unat addr \<le> unat a \<Longrightarrow> unat a < unat addr + unat len \<Longrightarrow>
            buf' ! (0 + (unat a - unat addr)) = peek m a"
    using load_loop_spec [OF inv b(1) _ load_store_True(2) [OF ld]] buf by simp_all
  show ?thesis
  proof (rule nth_equalityI)
    show "length buf' = length (map (\<lambda>i. peek m (addr + of_nat i)) [0..<unat len])"
      using sp buf by simp
    fix j assume "j < length buf'"
    then have j: "j < unat len"
      using sp buf by simp
    then have u: "unat (addr + of_nat j) = unat addr + j"
      using b(1) by (intro unat_add_of_nat) linarith
    have "buf' ! (0 + (unat (addr + of_nat j) - unat addr)) = peek m (addr + of_nat j)"
      using j by (intro bytes) (simp_all add: u)
    then show "buf' ! j = map (\<lambda>i. peek m (addr + of_nat i)) [0..<unat len] ! j"
      using j by (simp add: u)
  qed
qed

lemma load_keeps:
  assumes inv: "mem_inv m" and buf: "length buf = unat len"
    and ld: "mem_t_load_store m heap addr len buf False = Inr (ok, buf', m', heap')"
  shows "mem_inv m'" and "peek m' a = peek m a" and "sz m' = sz m"
proof -
  have "mem_inv m' \<and> peek m' a = peek m a \<and> sz m' = sz m"
  proof (cases ok)
    case True
    then have ld': "mem_t_load_store m heap addr len buf False = Inr (True, buf', m', heap')"
      using ld by simp
    note b = in_bounds [OF load_store_True(1) [OF ld']]
    show ?thesis
      using load_loop_spec [OF inv b(1) _ load_store_True(2) [OF ld']] buf by simp
  next
    case False
    then show ?thesis
      using load_store_result [OF ld] inv by simp
  qed
  then show "mem_inv m'" and "peek m' a = peek m a" and "sz m' = sz m"
    by simp_all
qed


text \<open>The invariant holds of every device a program can reach: the constructor establishes it
  and \<open>load_store\<close> keeps it.\<close>

lemma mem_inv_load_store:
  assumes inv: "mem_inv m" and buf: "length buf = unat len"
    and ls: "mem_t_load_store m heap addr len buf is_store = Inr (ok, buf', m', heap')"
  shows "mem_inv m'"
proof (cases ok)
  case False
  then show ?thesis
    using load_store_result [OF ls] inv by simp
next
  case True
  then have ls': "mem_t_load_store m heap addr len buf is_store = Inr (True, buf', m', heap')"
    using ls by simp
  note b = in_bounds [OF load_store_True(1) [OF ls']]
  show ?thesis
  proof (cases is_store)
    case True
    then have lp: "load_store_loop m heap addr len buf 0 True = Inr (buf', m', heap')"
      using load_store_True(2) [OF ls'] by simp
    show ?thesis
      using store_loop_spec [OF inv b(1) _ lp] buf by simp
  next
    case False
    then have lp: "load_store_loop m heap addr len buf 0 False = Inr (buf', m', heap')"
      using load_store_True(2) [OF ls'] by simp
    show ?thesis
      using load_loop_spec [OF inv b(1) _ lp] buf by simp
  qed
qed

lemma mem_inv_ctor: "mem_t_ctor size0 = Inr m \<Longrightarrow> mem_inv m"
  by (auto simp: mem_t_ctor_def mem_inv_def split: if_splits)

lemma peek_ctor: "mem_t_ctor size0 = Inr m \<Longrightarrow> peek m a = 0"
  by (auto simp: mem_t_ctor_def peek_def split: if_splits)

lemma loads_only_keeps:
  assumes "loads_only m0 m" and "mem_inv m0"
  shows "mem_inv m \<and> (\<forall>a. peek m a = peek m0 a) \<and> sz m = sz m0"
  using assms
proof (induction rule: loads_only.induct)
  case (fresh m)
  then show ?case by simp
next
  case (load m m1 buf len heap addr ok buf' m2 heap')
  then have inv1: "mem_inv m1" and IH: "\<forall>a. peek m1 a = peek m a" "sz m1 = sz m"
    by simp_all
  show ?case
    using IH load_keeps [OF inv1 load.hyps(2) load.hyps(3)] by simp
qed

text \<open>An in-bounds request returns \<open>true\<close> when the allocator has a page for every byte.\<close>

lemma load_store_returns:
  fixes addr len :: reg_t
  assumes "unat addr + unat len \<le> unat (sz m)" and "unat len \<le> heap"
  shows "\<exists>buf' m' heap'. mem_t_load_store m heap addr len buf is_store = Inr (True, buf', m', heap')"
proof -
  have "unat (sz m) < 2 ^ 64"
    using unsigned_less [of "sz m", where ?'a = nat] by simp
  then have "\<not> (addr + len < addr \<or> addr + len > sz m)"
    using assms(1) bounds_check_iff [of addr len "sz m"] by simp
  moreover obtain r where "load_store_loop m heap addr len buf 0 is_store = Inr r"
    using loop_succeeds [OF assms(2)] by blast
  ultimately show ?thesis
    by (cases r) (simp add: mem_t_load_store_def)
qed

lemmas eval_defs = mem_t_load_store_def loop_pos loop_zero mem_t_contents_def calloc_page_def
      set_page_def page_of_def memcpy_def PGSIZE_def PGSHIFT_def Let_def

section \<open>The ordered map of the bus\<close>

lemma set_map_assign:
  "k \<notin> fst ` set es \<Longrightarrow> set (map_assign es k v) = insert (k, v) (set es)"
proof (induction es)
  case Nil
  then show ?case by simp
next
  case (Cons e es)
  obtain k' v' where e: "e = (k', v')" by (cases e)
  have "k \<noteq> k'" and "k \<notin> fst ` set es"
    using Cons.prems by (auto simp: e)
  then show ?case
    using Cons.IH by (auto simp: e)
qed

lemma keys_map_assign: "fst ` set (map_assign es k v) = insert k (fst ` set es)"
proof (induction es)
  case Nil
  then show ?case by simp
next
  case (Cons e es)
  obtain k' v' where e: "e = (k', v')" by (cases e)
  show ?case
    using Cons.IH by (simp add: e insert_commute)
qed

lemma sorted_map_assign:
  "sorted_wrt (<) (map fst es) \<Longrightarrow> sorted_wrt (<) (map fst (map_assign es k v))"
proof (induction es)
  case Nil
  then show ?case by simp
next
  case (Cons e es)
  obtain k' v' where e: "e = (k', v')" by (cases e)
  have "\<forall>x \<in> fst ` set (map_assign es k v). k' < x" if "k' < k" "\<not> k < k'"
    using Cons.prems that by (auto simp: keys_map_assign e)
  then show ?case
    using Cons by (auto simp: e)
qed

lemma devices_foldl:
  assumes "distinct (map fst binds)" and "sorted_wrt (<) (map fst (devices bus))"
    and "fst ` set (devices bus) \<inter> fst ` set binds = {}"
  shows "sorted_wrt (<) (map fst (devices (foldl (\<lambda>bus (base, dev). bus_t_add_device bus base dev) bus binds)))
       \<and> set (devices (foldl (\<lambda>bus (base, dev). bus_t_add_device bus base dev) bus binds))
           = set (devices bus) \<union> set binds"
  using assms
proof (induction binds arbitrary: bus)
  case Nil
  then show ?case by simp
next
  case (Cons b binds)
  obtain base dev where b: "b = (base, dev)" by (cases b)
  let ?bus = "bus_t_add_device bus base dev"
  have fresh: "base \<notin> fst ` set (devices bus)"
    using Cons.prems(3) by (auto simp: b)
  have d: "devices ?bus = map_assign (devices bus) base dev"
    by (simp add: bus_t_add_device_def)
  have 1: "distinct (map fst binds)"
    using Cons.prems(1) by simp
  have 2: "sorted_wrt (<) (map fst (devices ?bus))"
    unfolding d using Cons.prems(2) by (rule sorted_map_assign)
  have 3: "fst ` set (devices ?bus) \<inter> fst ` set binds = {}"
    unfolding d keys_map_assign using Cons.prems(1) Cons.prems(3) by (auto simp: b)
  show ?case
    using Cons.IH [OF 1 2 3] set_map_assign [OF fresh, of dev] by (simp add: b d)
qed

lemma devices_bus_with:
  assumes "distinct (map fst binds)"
  shows "sorted_wrt (<) (map fst (devices (bus_with binds)))"
    and "set (devices (bus_with binds)) = set binds"
  using devices_foldl [OF assms, of bus_t_ctor] by (simp_all add: bus_with_def bus_t_ctor_def)

lemma upper_bound_zero: "\<forall>e \<in> set es. a < fst e \<Longrightarrow> upper_bound es a = 0"
  by (cases es) auto

lemma upper_bound_pos: "0 < upper_bound es a \<Longrightarrow> es \<noteq> [] \<and> fst (hd es) \<le> a"
  by (cases es) (auto split: if_splits)

lemma upper_bound_floor:
  assumes "sorted_wrt (<) (map fst es)" and "(k, v) \<in> set es" and "k \<le> a"
    and "\<forall>e \<in> set es. fst e \<le> a \<longrightarrow> fst e \<le> k"
  shows "0 < upper_bound es a \<and> es ! (upper_bound es a - 1) = (k, v)"
  using assms
proof (induction es)
  case Nil
  then show ?case by simp
next
  case (Cons e es)
  obtain k' v' where e: "e = (k', v')" by (cases e)
  have later: "\<forall>x \<in> set es. k' < fst x"
    using Cons.prems(1) by (auto simp: e)
  have le: "k' \<le> a"
  proof (cases "(k, v) = e")
    case True
    then show ?thesis using Cons.prems(3) e by simp
  next
    case False
    then have "(k, v) \<in> set es" using Cons.prems(2) by simp
    then have "k' < k" using later by auto
    then show ?thesis using Cons.prems(3) by simp
  qed
  then have ub: "upper_bound (e # es) a = Suc (upper_bound es a)"
    by (simp add: e not_less [symmetric])
  have kk: "k' \<le> k"
    using Cons.prems(4) le by (simp add: e)
  show ?case
  proof (cases "upper_bound es a = 0")
    case True
    have "(k, v) = e"
    proof (rule ccontr)
      assume "(k, v) \<noteq> e"
      then have in_es: "(k, v) \<in> set es" using Cons.prems(2) by simp
      have "sorted_wrt (<) (map fst es)" using Cons.prems(1) by simp
      moreover have "\<forall>e \<in> set es. fst e \<le> a \<longrightarrow> fst e \<le> k" using Cons.prems(4) by simp
      ultimately have "0 < upper_bound es a"
        using Cons.IH in_es Cons.prems(3) by blast
      with True show False by simp
    qed
    then show ?thesis
      using ub True by simp
  next
    case False
    then have pos: "0 < upper_bound es a" by simp
    have "es \<noteq> []" and hd: "fst (hd es) \<le> a"
      using upper_bound_pos [OF pos] by simp_all
    then have "hd es \<in> set es" by simp
    then have "k' < fst (hd es)" and "fst (hd es) \<le> k"
      using later hd Cons.prems(4) by auto
    then have "k' \<noteq> k" by auto
    then have in_es: "(k, v) \<in> set es"
      using Cons.prems(2) by (auto simp: e)
    have "sorted_wrt (<) (map fst es)" using Cons.prems(1) by simp
    moreover have "\<forall>e \<in> set es. fst e \<le> a \<longrightarrow> fst e \<le> k" using Cons.prems(4) by simp
    ultimately have "es ! (upper_bound es a - 1) = (k, v)"
      using Cons.IH in_es Cons.prems(3) by blast
    then show ?thesis
      using ub pos by (cases "upper_bound es a") simp_all
  qed
qed

section \<open>Plugin adapter and file plugin: what the constructor and \<open>alloc\<close> do\<close>

lemma ctor_retains_alloc_result:
  assumes "reg name = Some p" and "alloc p (c_str args) w = (ud, w')"
  shows "mmio_plugin_device_t_ctor reg name args w = Inr (\<lparr>plugin = p, user_data = ud\<rparr>, w')"
  using assms by (simp add: mmio_plugin_device_t_ctor_def)

lemma ctor_unknown_name:
  "reg name = None \<Longrightarrow> mmio_plugin_device_t_ctor reg name args w = Inl out_of_range"
  by (simp add: mmio_plugin_device_t_ctor_def)

text \<open>
  On every failing path but the one where \<open>close\<close> fails, and with an \<open>mmap\<close> that never
  returns the null address, \<open>file_plugin_alloc\<close> leaves the descriptors and mappings as
  they were.
\<close>

lemma file_plugin_alloc_failure_releases:
  assumes fail: "file_plugin_alloc env args os = (None, os')"
    and close_ok: "close_ret env = 0"
    and nonnull: "\<And>len rdwr fd. mmap_ret env len rdwr fd \<noteq> NULL"
    and fresh_fd: "\<And>filename rdwr. open_ret env filename rdwr \<notin> open_fds os"
    and fresh_map: "\<And>len rdwr fd. (mmap_ret env len rdwr fd, len) \<notin> mappings os"
  shows "os' = os"
proof (cases "case strchr args CHR '':'' of
              None \<Rightarrow> Some (args, False)
            | Some colon \<Rightarrow>
                map_option (\<lambda>writable. (drop (colon + 1) args, writable))
                  (file_plugin_flags (take colon args) False)")
  case None
  then show ?thesis
    using fail by (simp add: file_plugin_alloc_def)
next
  case (Some fw)
  obtain filename writable where fw: "fw = (filename, writable)" by (cases fw)
  define fd where "fd = open_ret env filename writable"
  define a where "a = mmap_ret env (word_of_int (lseek_ret env)) writable fd"
  have nn: "a \<noteq> NULL" unfolding a_def by (rule nonnull)
  have f1: "fd \<notin> open_fds os" unfolding fd_def by (rule fresh_fd)
  have f2: "(a, word_of_int (lseek_ret env)) \<notin> mappings os" unfolding a_def by (rule fresh_map)
  have ins: "insert fd (open_fds os) - {fd} = open_fds os"
    using f1 by blast
  have ins2: "insert (a, word_of_int (lseek_ret env)) (mappings os) - {(a, word_of_int (lseek_ret env))}
      = mappings os"
    using f2 by blast
  show ?thesis
    using fail nn close_ok ins ins2
    by (simp add: file_plugin_alloc_def Some fw Let_def sys_open_def sys_close_def sys_mmap_def
        sys_munmap_def fd_def [symmetric] a_def [symmetric] split: if_splits)
qed

text \<open>Whenever the mapping fails and the later steps succeed, a handle is returned.\<close>

lemma file_plugin_alloc_MAP_FAILED_handle:
  assumes "strchr args CHR '':'' = None" and "0 \<le> open_ret env args False"
    and "lseek_ret env \<noteq> 0" and "mmap_ret env (word_of_int (lseek_ret env)) False (open_ret env args False) = MAP_FAILED"
    and "close_ret env = 0" and "malloc_ok env"
  shows "fst (file_plugin_alloc env args os) =
     Some \<lparr>fpd_fd = open_ret env args False, fpd_addr = MAP_FAILED,
          fpd_length = word_of_int (lseek_ret env), fpd_writable = False\<rparr>"
  using assms
  by (simp add: file_plugin_alloc_def Let_def sys_open_def sys_close_def sys_mmap_def
      NULL_def MAP_FAILED_def)

section \<open>The properties\<close>

text \<open>
  C1. On a bus whose devices were bound at distinct bases, \<open>load\<close> and \<open>store\<close> at
  address \<open>a\<close> call the device whose base is the largest one not above \<open>a\<close>, with the
  offset \<open>a - base\<close>, and return what it returns; when every base is above \<open>a\<close>, or
  the bus is empty, they return \<open>false\<close> and the buffer is as it was.
\<close>

theorem bus_routes_to_floor_device:
  fixes binds :: "(reg_t \<times> 'h abstract_device_t) list"
  assumes "distinct (map fst binds)"
  shows "((base, dev) \<in> set binds \<and> base \<le> a \<and> (\<forall>b \<in> set binds. fst b \<le> a \<longrightarrow> fst b \<le> base) \<longrightarrow>
            bus_t_load (bus_with binds) a len buf h = dev_load dev (a - base) len buf h \<and>
            bus_t_store (bus_with binds) a len buf h = dev_store dev (a - base) len buf h)
       \<and> ((\<forall>b \<in> set binds. a < fst b) \<longrightarrow>
            bus_t_load (bus_with binds) a len buf h = Inr (False, buf, h) \<and>
            bus_t_store (bus_with binds) a len buf h = Inr (False, h))"
proof (intro conjI impI)
  assume "\<forall>b \<in> set binds. a < fst b"
  then have z: "upper_bound (devices (bus_with binds)) a = 0"
    using devices_bus_with(2) [OF assms] by (intro upper_bound_zero) simp
  show "bus_t_load (bus_with binds) a len buf h = Inr (False, buf, h)"
    and "bus_t_store (bus_with binds) a len buf h = Inr (False, h)"
    by (simp_all add: bus_t_load_def bus_t_store_def z)
next
  assume f: "(base, dev) \<in> set binds \<and> base \<le> a \<and> (\<forall>b \<in> set binds. fst b \<le> a \<longrightarrow> fst b \<le> base)"
  have u: "0 < upper_bound (devices (bus_with binds)) a"
    "devices (bus_with binds) ! (upper_bound (devices (bus_with binds)) a - 1) = (base, dev)"
    using upper_bound_floor [OF devices_bus_with(1) [OF assms], of base dev a] f
    by (simp_all add: devices_bus_with(2) [OF assms])
  have ne: "devices (bus_with binds) \<noteq> []"
    using upper_bound_pos [OF u(1)] by simp
  show "bus_t_load (bus_with binds) a len buf h = dev_load dev (a - base) len buf h"
    and "bus_t_store (bus_with binds) a len buf h = dev_store dev (a - base) len buf h"
    using u ne by (simp_all add: bus_t_load_def bus_t_store_def Let_def)
qed

theorem bus_routes_to_floor_device_witness:
  "distinct (map fst
      [(0x2000, \<lparr>dev_load = \<lambda>off len buf h. Inr (True, buf, (''B'', off) # h),
                 dev_store = \<lambda>off len buf h. Inr (True, (''B'', off) # h)\<rparr>),
       (0x1000 :: reg_t, \<lparr>dev_load = \<lambda>off len buf h. Inr (True, buf, (''A'', off) # h),
                 dev_store = \<lambda>off len buf h. Inr (True, (''A'', off) # h)\<rparr>)])
   \<and> bus_t_load (bus_with
      [(0x2000, \<lparr>dev_load = \<lambda>off len buf h. Inr (True, buf, (''B'', off) # h),
                 dev_store = \<lambda>off len buf h. Inr (True, (''B'', off) # h)\<rparr>),
       (0x1000, \<lparr>dev_load = \<lambda>off len buf h. Inr (True, buf, (''A'', off) # h),
                 dev_store = \<lambda>off len buf h. Inr (True, (''A'', off) # h)\<rparr>)])
        0x1500 4 [0, 0, 0, 0] [] = Inr (True, [0, 0, 0, 0], [(''A'', 0x500)])
   \<and> bus_t_load (bus_with
      [(0x2000, \<lparr>dev_load = \<lambda>off len buf h. Inr (True, buf, (''B'', off) # h),
                 dev_store = \<lambda>off len buf h. Inr (True, (''B'', off) # h)\<rparr>),
       (0x1000, \<lparr>dev_load = \<lambda>off len buf h. Inr (True, buf, (''A'', off) # h),
                 dev_store = \<lambda>off len buf h. Inr (True, (''A'', off) # h)\<rparr>)])
        0x2800 4 [0, 0, 0, 0] [] = Inr (True, [0, 0, 0, 0], [(''B'', 0x800)])
   \<and> bus_t_load (bus_with
      [(0x2000, \<lparr>dev_load = \<lambda>off len buf h. Inr (True, buf, (''B'', off) # h),
                 dev_store = \<lambda>off len buf h. Inr (True, (''B'', off) # h)\<rparr>),
       (0x1000, \<lparr>dev_load = \<lambda>off len buf h. Inr (True, buf, (''A'', off) # h),
                 dev_store = \<lambda>off len buf h. Inr (True, (''A'', off) # h)\<rparr>)])
        0x500 4 [0, 0, 0, 0] [] = Inr (False, [0, 0, 0, 0], [])"
proof -
  let ?A = "\<lparr>dev_load = \<lambda>(off :: reg_t) (len :: size_t) (buf :: bytes) h. Inr (True, buf, (''A'', off) # h),
            dev_store = \<lambda>(off :: reg_t) (len :: size_t) (buf :: bytes) h. Inr (True, (''A'', off) # h)\<rparr>"
  let ?B = "\<lparr>dev_load = \<lambda>(off :: reg_t) (len :: size_t) (buf :: bytes) h. Inr (True, buf, (''B'', off) # h),
            dev_store = \<lambda>(off :: reg_t) (len :: size_t) (buf :: bytes) h. Inr (True, (''B'', off) # h)\<rparr>"
  let ?binds = "[(0x2000 :: reg_t, ?B), (0x1000, ?A)]"
  have d: "distinct (map fst ?binds)"
    by simp
  show ?thesis
    using d bus_routes_to_floor_device [OF d, of "0x1000" ?A "0x1500" 4 "[0, 0, 0, 0]" "[]"]
      bus_routes_to_floor_device [OF d, of "0x2000" ?B "0x2800" 4 "[0, 0, 0, 0]" "[]"]
      bus_routes_to_floor_device [OF d, of "0x1000" ?A "0x500" 4 "[0, 0, 0, 0]" "[]"]
    by simp
qed

text \<open>
  C2. When \<open>addr + len\<close> overflows 64 bits or exceeds the size of the device,
  \<open>load_store\<close> returns \<open>false\<close>, and the buffer, the device with its page map, and the
  allocator are as they were.
\<close>

theorem load_store_out_of_bounds_no_effect:
  fixes addr len :: reg_t
  shows "2 ^ 64 \<le> unat addr + unat len \<or> unat (sz m) < unat addr + unat len \<Longrightarrow>
   mem_t_load_store m heap addr len buf is_store = Inr (False, buf, m, heap)"
  using bounds_check_iff [of addr len "sz m"]
  by (simp add: mem_t_load_store_def)

theorem load_store_out_of_bounds_no_effect_witness:
  "unat (sz \<lparr>sz = 4096, sparse_memory_map = Map.empty\<rparr>) < unat (4090 :: reg_t) + unat (8 :: size_t)
   \<and> mem_t_load_store \<lparr>sz = 4096, sparse_memory_map = Map.empty\<rparr> 1 4090 8 [1, 2, 3, 4, 5, 6, 7, 8] True
       = Inr (False, [1, 2, 3, 4, 5, 6, 7, 8], \<lparr>sz = 4096, sparse_memory_map = Map.empty\<rparr>, 1)
   \<and> 2 ^ 64 \<le> unat (0xFFFFFFFFFFFFFFFF :: reg_t) + unat (2 :: size_t)
   \<and> mem_t_load_store \<lparr>sz = 4096, sparse_memory_map = Map.empty\<rparr> 1 0xFFFFFFFFFFFFFFFF 2 [1, 2] False
       = Inr (False, [1, 2], \<lparr>sz = 4096, sparse_memory_map = Map.empty\<rparr>, 1)"
  using load_store_out_of_bounds_no_effect [of 4090 8 "\<lparr>sz = 4096, sparse_memory_map = Map.empty\<rparr>" 1 "[1, 2, 3, 4, 5, 6, 7, 8]" True]
    load_store_out_of_bounds_no_effect [of "0xFFFFFFFFFFFFFFFF" 2 "\<lparr>sz = 4096, sparse_memory_map = Map.empty\<rparr>" 1 "[1, 2]" False]
  by simp

text \<open>
  C3. After a store of the bytes \<open>B\<close> at \<open>(addr, len)\<close> has returned \<open>true\<close>, a load
  of the same range returns \<open>true\<close> with exactly \<open>B\<close> in the buffer, whether or not
  the range spans a page boundary; the load allocates nothing and leaves the device as the
  store left it.
\<close>

theorem store_then_load_returns_stored:
  assumes inv: "mem_inv m" and B: "length B = unat len" and buf: "length buf = unat len"
    and st: "mem_t_load_store m heap addr len B True = Inr (True, B1, m1, heap1)"
  shows "mem_t_load_store m1 heap1 addr len buf False = Inr (True, B, m1, heap1)"
proof -
  note b = in_bounds [OF load_store_True(1) [OF st]]
  have s: "mem_inv m1" "sz m1 = sz m"
    "\<And>a. peek m1 a = (if unat addr \<le> unat a \<and> unat a < unat addr + unat len
                          then B ! (0 + (unat a - unat addr)) else peek m a)"
    "\<forall>a. unat addr \<le> unat a \<and> unat a < unat addr + unat len
           \<longrightarrow> drop_bit PGSHIFT a \<in> dom (sparse_memory_map m1)"
    using store_loop_spec [OF inv b(1) _ load_store_True(2) [OF st]] B by simp_all
  obtain buf' where lp: "load_store_loop m1 heap1 addr len buf 0 False = Inr (buf', m1, heap1)"
    using load_loop_present [OF b(1) s(4)] by blast
  have ld: "mem_t_load_store m1 heap1 addr len buf False = Inr (True, buf', m1, heap1)"
    using load_store_True(1) [OF st] lp by (simp add: mem_t_load_store_def s(2))
  have "buf' = map (\<lambda>i. peek m1 (addr + of_nat i)) [0..<unat len]"
    by (rule load_returns_peek [OF s(1) buf ld])
  also have "\<dots> = map (\<lambda>i. B ! i) [0..<unat len]"
  proof (rule map_cong [OF refl])
    fix i assume "i \<in> set [0..<unat len]"
    then have i: "i < unat len" by simp
    then have "unat (addr + of_nat i) = unat addr + i"
      using b(1) by (intro unat_add_of_nat) linarith
    then show "peek m1 (addr + of_nat i) = B ! i"
      using i by (simp add: s(3))
  qed
  also have "\<dots> = B"
    using map_nth [of B] by (simp only: B)
  finally show ?thesis
    using ld by simp
qed

theorem store_then_load_returns_stored_witness:
  "mem_t_load_store \<lparr>sz = 8192, sparse_memory_map = Map.empty\<rparr> 2 4090 8 [1, 2, 3, 4, 5, 6, 7, 8] True
     = Inr (True, [1, 2, 3, 4, 5, 6, 7, 8],
          \<lparr>sz = 8192, sparse_memory_map =
             [0 \<mapsto> replicate 4090 0 @ [1, 2, 3, 4, 5, 6], 1 \<mapsto> [7, 8] @ replicate 4094 0]\<rparr>, 0)
   \<and> mem_t_load_store
        \<lparr>sz = 8192, sparse_memory_map =
             [0 \<mapsto> replicate 4090 0 @ [1, 2, 3, 4, 5, 6], 1 \<mapsto> [7, 8] @ replicate 4094 0]\<rparr>
        0 4090 8 [0, 0, 0, 0, 0, 0, 0, 0] False
     = Inr (True, [1, 2, 3, 4, 5, 6, 7, 8],
          \<lparr>sz = 8192, sparse_memory_map =
             [0 \<mapsto> replicate 4090 0 @ [1, 2, 3, 4, 5, 6], 1 \<mapsto> [7, 8] @ replicate 4094 0]\<rparr>, 0)"
proof -
  let ?m = "\<lparr>sz = 8192, sparse_memory_map = Map.empty\<rparr>"
  let ?B = "[1, 2, 3, 4, 5, 6, 7, 8] :: bytes"
  let ?m1 = "\<lparr>sz = 8192, sparse_memory_map =
             [0 \<mapsto> replicate 4090 0 @ [1, 2, 3, 4, 5, 6], 1 \<mapsto> [7, 8] @ replicate 4094 0]\<rparr>"
  have inv: "mem_inv ?m"
    by (simp add: mem_inv_def)
  have B: "length ?B = unat (8 :: size_t)" and buf: "length [0, 0, 0, 0, 0, 0, 0, 0 :: 8 word] = unat (8 :: size_t)"
    by simp_all
  have st: "mem_t_load_store ?m 2 4090 8 ?B True = Inr (True, ?B, ?m1, 0)"
    by (simp add: eval_defs)
  show ?thesis
    using st store_then_load_returns_stored [OF inv B buf st] by simp
qed

text \<open>
  C4. On a device that was constructed and has since seen loads only, a load that returns
  \<open>true\<close> fills the buffer with zero bytes.
\<close>

theorem fresh_device_loads_zero:
  assumes ctor: "mem_t_ctor size0 = Inr m0" and lo: "loads_only m0 m"
    and buf: "length buf = unat len"
    and ld: "mem_t_load_store m heap addr len buf False = Inr (True, buf', m', heap')"
  shows "buf' = replicate (unat len) 0"
proof -
  have inv: "mem_inv m" and z: "\<And>a. peek m a = 0"
    using loads_only_keeps [OF lo mem_inv_ctor [OF ctor]] peek_ctor [OF ctor] by simp_all
  have "buf' = map (\<lambda>i. peek m (addr + of_nat i)) [0..<unat len]"
    by (rule load_returns_peek [OF inv buf ld])
  then show ?thesis
    by (simp add: z map_replicate_const)
qed

theorem fresh_device_loads_zero_witness:
  "mem_t_ctor 8192 = Inr \<lparr>sz = 8192, sparse_memory_map = Map.empty\<rparr>
   \<and> loads_only \<lparr>sz = 8192, sparse_memory_map = Map.empty\<rparr> \<lparr>sz = 8192, sparse_memory_map = Map.empty\<rparr>
   \<and> mem_t_load_store \<lparr>sz = 8192, sparse_memory_map = Map.empty\<rparr> 2 4090 8 [9, 9, 9, 9, 9, 9, 9, 9] False
     = Inr (True, replicate 8 0,
          \<lparr>sz = 8192, sparse_memory_map = [0 \<mapsto> replicate 4096 0, 1 \<mapsto> replicate 4096 0]\<rparr>, 0)"
proof -
  let ?m = "\<lparr>sz = 8192, sparse_memory_map = Map.empty\<rparr>"
  let ?m2 = "\<lparr>sz = 8192, sparse_memory_map = [0 \<mapsto> replicate 4096 0, 1 \<mapsto> replicate 4096 0]\<rparr>"
  have ctor: "mem_t_ctor 8192 = Inr ?m"
    by (simp add: mem_t_ctor_def PGSIZE_def PGSHIFT_def)
  have lo: "loads_only ?m ?m"
    by (rule loads_only.fresh)
  have buf: "length [9, 9, 9, 9, 9, 9, 9, 9 :: 8 word] = unat (8 :: size_t)"
    by simp
  obtain buf' where ld: "mem_t_load_store ?m 2 4090 8 [9, 9, 9, 9, 9, 9, 9, 9] False = Inr (True, buf', ?m2, 0)"
    by (simp add: eval_defs)
  have "buf' = replicate (unat (8 :: size_t)) 0"
    by (rule fresh_device_loads_zero [OF ctor lo buf ld])
  then show ?thesis
    using ctor lo ld by simp
qed

text \<open>
  C5. The claim is that the construction of the adapter fails when \<open>alloc\<close> signals
  failure. The constructor does not look at what \<open>alloc\<close> returns: with the file plugin
  registered as \<open>file\<close> and the argument \<open>x:/tmp/f\<close>, whose flag \<open>x\<close> makes
  \<open>file_plugin_alloc\<close> return \<open>NULL\<close>, the construction succeeds and the adapter
  holds the null handle.
\<close>

theorem adapter_ctor_retains_null_handle:
  "mmio_plugin_device_t_ctor
     [''file'' \<mapsto> \<lparr>alloc = file_plugin_alloc env, load = l, store = s, dealloc = file_plugin_dealloc\<rparr>]
     ''file'' ''x:/tmp/f'' os
   = Inr (\<lparr>plugin = \<lparr>alloc = file_plugin_alloc env, load = l, store = s, dealloc = file_plugin_dealloc\<rparr>,
           user_data = None\<rparr>, os)"
  by (simp add: mmio_plugin_device_t_ctor_def c_str_def file_plugin_alloc_def)

text \<open>
  C6. The claim is that every failing path of \<open>file_plugin_alloc\<close> releases the
  descriptor and the mapping it has acquired. On the path where \<open>close\<close> fails the mapping
  has been established and is not unmapped: \<open>alloc\<close> returns \<open>NULL\<close> and the mapping is
  still there.
\<close>

theorem file_plugin_alloc_close_failure_leaks_mapping:
  "file_plugin_alloc
     \<lparr>open_ret = \<lambda>filename rdwr. 3, lseek_ret = 16, mmap_ret = \<lambda>len rdwr fd. 0x7f0000000000,
      close_ret = - 1, malloc_ok = True\<rparr>
     ''/tmp/x'' \<lparr>open_fds = {}, mappings = {}\<rparr>
   = (None, \<lparr>open_fds = {}, mappings = {(0x7f0000000000, 16)}\<rparr>)"
  by (simp add: file_plugin_alloc_def sys_open_def sys_close_def sys_mmap_def sys_munmap_def
      NULL_def MAP_FAILED_def)

text \<open>
  C7. The claim is that \<open>file_plugin_alloc\<close> returns failure when the mapping fails. The
  code compares the result of \<open>mmap\<close> with \<open>NULL\<close>, and a failing \<open>mmap\<close> returns
  \<open>MAP_FAILED\<close>: the function goes on and returns a handle whose address is
  \<open>MAP_FAILED\<close>.
\<close>

theorem file_plugin_alloc_ignores_MAP_FAILED:
  "file_plugin_alloc
     \<lparr>open_ret = \<lambda>filename rdwr. 3, lseek_ret = 16, mmap_ret = \<lambda>len rdwr fd. MAP_FAILED,
      close_ret = 0, malloc_ok = True\<rparr>
     ''/tmp/x'' \<lparr>open_fds = {}, mappings = {}\<rparr>
   = (Some \<lparr>fpd_fd = 3, fpd_addr = MAP_FAILED, fpd_length = 16, fpd_writable = False\<rparr>,
      \<lparr>open_fds = {}, mappings = {}\<rparr>)"
  by (simp add: file_plugin_alloc_def sys_open_def sys_close_def sys_mmap_def sys_munmap_def
      NULL_def MAP_FAILED_def)

text \<open>
  C8. After \<open>register_mmio_plugin(name, D)\<close> has succeeded, registering \<open>D2\<close> under
  the same name throws and leaves the registry as it was: the name still yields \<open>D\<close>, and
  a device constructed under that name uses \<open>D\<close>.
\<close>

theorem duplicate_registration_keeps_first:
  assumes "register_mmio_plugin name D reg = (Inr (), reg1)"
  shows "register_mmio_plugin name D2 reg1 =
           (Inl (runtime_error (''Plugin '' @ [CHR 0x22] @ name @ [CHR 0x22] @ '' already registered!'')), reg1)
       \<and> reg1 name = Some D
       \<and> mmio_plugin_device_t_ctor (snd (register_mmio_plugin name D2 reg1)) name args w
           = Inr (\<lparr>plugin = D, user_data = fst (alloc D (c_str args) w)\<rparr>, snd (alloc D (c_str args) w))"
proof -
  have reg1: "reg1 = reg(name \<mapsto> D)" and "reg name = None"
    using assms by (auto simp: register_mmio_plugin_def emplace_def Let_def split: option.splits)
  then have found: "reg1 name = Some D"
    by simp
  then have dup: "register_mmio_plugin name D2 reg1 =
      (Inl (runtime_error (''Plugin '' @ [CHR 0x22] @ name @ [CHR 0x22] @ '' already registered!'')), reg1)"
    by (simp add: register_mmio_plugin_def emplace_def)
  show ?thesis
    unfolding dup using found by (simp add: mmio_plugin_device_t_ctor_def split: prod.splits)
qed

theorem duplicate_registration_keeps_first_witness:
  "register_mmio_plugin ''dup''
       \<lparr>alloc = \<lambda>(s :: string) (w :: nat). (Some (1 :: nat), w),
        load = \<lambda>(u :: nat option) (a :: reg_t) (l :: size_t) (b :: bytes) (w :: nat). (True, b, w),
        store = \<lambda>(u :: nat option) (a :: reg_t) (l :: size_t) (b :: bytes) (w :: nat). (True, w),
        dealloc = \<lambda>(u :: nat option) (w :: nat). w\<rparr>
       Map.empty
     = (Inr (), [''dup'' \<mapsto>
       \<lparr>alloc = \<lambda>(s :: string) (w :: nat). (Some (1 :: nat), w),
        load = \<lambda>(u :: nat option) (a :: reg_t) (l :: size_t) (b :: bytes) (w :: nat). (True, b, w),
        store = \<lambda>(u :: nat option) (a :: reg_t) (l :: size_t) (b :: bytes) (w :: nat). (True, w),
        dealloc = \<lambda>(u :: nat option) (w :: nat). w\<rparr>])
   \<and> register_mmio_plugin ''dup''
       \<lparr>alloc = \<lambda>(s :: string) (w :: nat). (None :: nat option, w),
        load = \<lambda>(u :: nat option) (a :: reg_t) (l :: size_t) (b :: bytes) (w :: nat). (False, b, w),
        store = \<lambda>(u :: nat option) (a :: reg_t) (l :: size_t) (b :: bytes) (w :: nat). (False, w),
        dealloc = \<lambda>(u :: nat option) (w :: nat). w\<rparr>
       [''dup'' \<mapsto>
       \<lparr>alloc = \<lambda>(s :: string) (w :: nat). (Some (1 :: nat), w),
        load = \<lambda>(u :: nat option) (a :: reg_t) (l :: size_t) (b :: bytes) (w :: nat). (True, b, w),
        store = \<lambda>(u :: nat option) (a :: reg_t) (l :: size_t) (b :: bytes) (w :: nat). (True, w),
        dealloc = \<lambda>(u :: nat option) (w :: nat). w\<rparr>]
     = (Inl (runtime_error (''Plugin '' @ [CHR 0x22] @ ''dup'' @ [CHR 0x22] @ '' already registered!'')), [''dup'' \<mapsto>
       \<lparr>alloc = \<lambda>(s :: string) (w :: nat). (Some (1 :: nat), w),
        load = \<lambda>(u :: nat option) (a :: reg_t) (l :: size_t) (b :: bytes) (w :: nat). (True, b, w),
        store = \<lambda>(u :: nat option) (a :: reg_t) (l :: size_t) (b :: bytes) (w :: nat). (True, w),
        dealloc = \<lambda>(u :: nat option) (w :: nat). w\<rparr>])
   \<and> [''dup'' \<mapsto>
       \<lparr>alloc = \<lambda>(s :: string) (w :: nat). (Some (1 :: nat), w),
        load = \<lambda>(u :: nat option) (a :: reg_t) (l :: size_t) (b :: bytes) (w :: nat). (True, b, w),
        store = \<lambda>(u :: nat option) (a :: reg_t) (l :: size_t) (b :: bytes) (w :: nat). (True, w),
        dealloc = \<lambda>(u :: nat option) (w :: nat). w\<rparr>] ''dup''
     = Some
       \<lparr>alloc = \<lambda>(s :: string) (w :: nat). (Some (1 :: nat), w),
        load = \<lambda>(u :: nat option) (a :: reg_t) (l :: size_t) (b :: bytes) (w :: nat). (True, b, w),
        store = \<lambda>(u :: nat option) (a :: reg_t) (l :: size_t) (b :: bytes) (w :: nat). (True, w),
        dealloc = \<lambda>(u :: nat option) (w :: nat). w\<rparr>"
proof -
  let ?D = "\<lparr>alloc = \<lambda>(s :: string) (w :: nat). (Some (1 :: nat), w),
        load = \<lambda>(u :: nat option) (a :: reg_t) (l :: size_t) (b :: bytes) (w :: nat). (True, b, w),
        store = \<lambda>(u :: nat option) (a :: reg_t) (l :: size_t) (b :: bytes) (w :: nat). (True, w),
        dealloc = \<lambda>(u :: nat option) (w :: nat). w\<rparr>"
  let ?D2 = "\<lparr>alloc = \<lambda>(s :: string) (w :: nat). (None :: nat option, w),
        load = \<lambda>(u :: nat option) (a :: reg_t) (l :: size_t) (b :: bytes) (w :: nat). (False, b, w),
        store = \<lambda>(u :: nat option) (a :: reg_t) (l :: size_t) (b :: bytes) (w :: nat). (False, w),
        dealloc = \<lambda>(u :: nat option) (w :: nat). w\<rparr>"
  have first: "register_mmio_plugin ''dup'' ?D Map.empty = (Inr (), [''dup'' \<mapsto> ?D])"
    by (simp add: register_mmio_plugin_def emplace_def)
  show ?thesis
    using first duplicate_registration_keeps_first [OF first, of ?D2 "''args''" 0]
    by simp
qed

text \<open>
  C9. The constructor of the sparse memory device succeeds exactly when the size is positive
  and a multiple of 4096, and then yields a device of that size with no page; otherwise it
  throws the runtime error about the memory size.
\<close>

theorem mem_t_ctor_succeeds_iff:
  "mem_t_ctor size0 =
     (if 0 < unat size0 \<and> unat size0 mod 4096 = 0
      then Inr \<lparr>sz = size0, sparse_memory_map = Map.empty\<rparr>
      else Inl (runtime_error ''memory size must be a positive multiple of 4 KiB''))"
proof -
  have z: "size0 = 0 \<longleftrightarrow> unat size0 = 0"
    by (simp add: unat_eq_0)
  have m: "size0 mod PGSIZE = 0 \<longleftrightarrow> unat size0 mod 4096 = 0"
    using unat_eq_0 [of "size0 mod PGSIZE"] by (simp add: unat_mod unat_PGSIZE)
  show ?thesis
    unfolding mem_t_ctor_def z m by auto
qed

theorem mem_t_ctor_succeeds_iff_witness:
  "mem_t_ctor 8192 = Inr \<lparr>sz = 8192, sparse_memory_map = Map.empty\<rparr>
   \<and> mem_t_ctor 0 = Inl (runtime_error ''memory size must be a positive multiple of 4 KiB'')
   \<and> mem_t_ctor 4097 = Inl (runtime_error ''memory size must be a positive multiple of 4 KiB'')"
  using mem_t_ctor_succeeds_iff [of 8192] mem_t_ctor_succeeds_iff [of 0]
    mem_t_ctor_succeeds_iff [of 4097]
  by simp

text \<open>
  C10. A load that returns \<open>true\<close> leaves every byte of the device as it was: it may add
  pages to the page map, and every address reads the same value after it as before; the size
  is unchanged and no page that was there is changed.
\<close>

theorem load_preserves_contents:
  assumes inv: "mem_inv m" and buf: "length buf = unat len"
    and ld: "mem_t_load_store m heap addr len buf False = Inr (True, buf', m', heap')"
  shows "(\<forall>a. peek m' a = peek m a) \<and> sz m' = sz m \<and> mem_inv m'
       \<and> sparse_memory_map m \<subseteq>\<^sub>m sparse_memory_map m'"
proof -
  note b = in_bounds [OF load_store_True(1) [OF ld]]
  show ?thesis
    using load_loop_spec [OF inv b(1) _ load_store_True(2) [OF ld]] buf by simp
qed

theorem load_preserves_contents_witness:
  "mem_t_load_store \<lparr>sz = 8192, sparse_memory_map = [1 \<mapsto> [7, 8] @ replicate 4094 0]\<rparr> 1 4090 8
        [9, 9, 9, 9, 9, 9, 9, 9] False
     = Inr (True, replicate 6 0 @ [7, 8],
          \<lparr>sz = 8192, sparse_memory_map = [1 \<mapsto> [7, 8] @ replicate 4094 0, 0 \<mapsto> replicate 4096 0]\<rparr>, 0)
   \<and> (\<forall>a. peek \<lparr>sz = 8192, sparse_memory_map = [1 \<mapsto> [7, 8] @ replicate 4094 0, 0 \<mapsto> replicate 4096 0]\<rparr> a
          = peek \<lparr>sz = 8192, sparse_memory_map = [1 \<mapsto> [7, 8] @ replicate 4094 0]\<rparr> a)"
proof -
  let ?m = "\<lparr>sz = 8192, sparse_memory_map = [1 \<mapsto> [7, 8] @ replicate 4094 0]\<rparr>"
  let ?m2 = "\<lparr>sz = 8192, sparse_memory_map = [1 \<mapsto> [7, 8] @ replicate 4094 0, 0 \<mapsto> replicate 4096 0]\<rparr>"
  have inv: "mem_inv ?m"
    by (simp add: mem_inv_def PGSIZE_def PGSHIFT_def)
  have buf: "length [9, 9, 9, 9, 9, 9, 9, 9 :: 8 word] = unat (8 :: size_t)"
    by simp
  have ld: "mem_t_load_store ?m 1 4090 8 [9, 9, 9, 9, 9, 9, 9, 9] False
      = Inr (True, replicate 6 0 @ [7, 8], ?m2, 0)"
    by (simp add: eval_defs)
  show ?thesis
    using ld load_preserves_contents [OF inv buf ld] by simp
qed

end
